theory Spec2Isabelle
  imports Main "HOL-Library.Char_ord" "HOL-Library.Finite_Map"
begin

section \<open>JavaScript strings\<close>

text \<open>
  A document and a file name are JavaScript strings: lists of UTF-16 code units, each one
  its number. Indices, \<open>slice\<close>, \<open>indexOf\<close> and \<open>length\<close> count code units. \<open>js\<close> writes an
  ASCII literal and \<open>ch\<close> an ASCII character.
\<close>

type_synonym jstring = "int list"

definition ch :: "char \<Rightarrow> int" where
  "ch c = of_char c"

definition js :: "string \<Rightarrow> jstring" where
  "js s = map ch s"

lemma js_Nil [simp]: "js [] = []"
  by (simp add: js_def)

lemma js_Cons [simp]: "js (c # cs) = ch c # js cs"
  by (simp add: js_def)

text \<open>
  \<open>Buffer.byteLength(s, "utf8")\<close>: one to three bytes for a code unit, four for a
  surrogate pair, three (U+FFFD) for a surrogate that stands alone.
\<close>

fun byteLength :: "jstring \<Rightarrow> nat" where
  "byteLength [] = 0"
| "byteLength (u # us) =
     (if u < 0x80 then 1 + byteLength us
      else if u < 0x800 then 2 + byteLength us
      else if 0xD800 \<le> u \<and> u < 0xDC00 then
        (case us of
           [] \<Rightarrow> 3
         | v # vs \<Rightarrow> if 0xDC00 \<le> v \<and> v < 0xE000 then 4 + byteLength vs else 3 + byteLength us)
      else 3 + byteLength us)"

text \<open>
  \<open>String.prototype.toLowerCase\<close> is the case conversion of the platform, a table of
  Unicode that is no part of the repository: the scanner below takes it as a parameter.
  \<open>toLowerCase_basic\<close> is that conversion on the strings whose letters with case are
  those of Basic Latin and U+0130, the capital I with a dot above, whose lower case is the
  two code units U+0069 U+0307. The examples are such strings.
\<close>

definition lower_units :: "int \<Rightarrow> jstring" where
  "lower_units c =
     (if 0x41 \<le> c \<and> c \<le> 0x5A then [c + 0x20]
      else if c = 0x130 then [0x69, 0x307]
      else [c])"

definition toLowerCase_basic :: "jstring \<Rightarrow> jstring" where
  "toLowerCase_basic s = concat (map lower_units s)"

section \<open>Inline asset compaction (\<open>_bin/fix-snapshots.ts\<close>)\<close>

subsection \<open>The string operations the scanner uses\<close>

text \<open>\<open>s.startsWith(p)\<close>\<close>

primrec startsWith :: "jstring \<Rightarrow> jstring \<Rightarrow> bool" where
  "startsWith s [] = True"
| "startsWith s (p # ps) = (case s of [] \<Rightarrow> False | c # cs \<Rightarrow> c = p \<and> startsWith cs ps)"

text \<open>
  \<open>s.indexOf(needle, pos)\<close>: the first index at or after \<open>pos\<close> where \<open>needle\<close> occurs;
  \<open>None\<close> is the \<open>-1\<close> of JavaScript. A position beyond the end finds nothing.
\<close>

primrec first_index :: "jstring \<Rightarrow> jstring \<Rightarrow> nat option" where
  "first_index needle [] = (if needle = [] then Some 0 else None)"
| "first_index needle (c # cs) =
     (if startsWith (c # cs) needle then Some 0 else map_option Suc (first_index needle cs))"

definition indexOf :: "jstring \<Rightarrow> jstring \<Rightarrow> nat \<Rightarrow> nat option" where
  "indexOf s needle pos = map_option (\<lambda>j. pos + j) (first_index needle (drop pos s))"

text \<open>
  \<open>s.slice(a, b)\<close> for indices that are not negative: empty when \<open>b \<le> a\<close> or when \<open>a\<close> is
  beyond the end. \<open>s.slice(a)\<close> is \<^term>\<open>drop a s\<close>.
\<close>

definition slice :: "jstring \<Rightarrow> nat \<Rightarrow> nat \<Rightarrow> jstring" where
  "slice s a b = take (b - a) (drop a s)"

text \<open>
  The character test of the payload loop. The source compares the one-character string
  \<open>c\<close> with the literals \<open>'\\n'\<close>, \<open>'\\r'\<close> and \<open>'\\t'\<close>, each of which is a backslash
  followed by a letter: two characters.
\<close>

definition is_b64_char :: "int \<Rightarrow> bool" where
  "is_b64_char c \<longleftrightarrow>
     (ch CHR ''A'' \<le> c \<and> c \<le> ch CHR ''Z'') \<or> (ch CHR ''a'' \<le> c \<and> c \<le> ch CHR ''z'') \<or>
     (ch CHR ''0'' \<le> c \<and> c \<le> ch CHR ''9'') \<or> c = ch CHR ''+'' \<or> c = ch CHR ''/'' \<or>
     c = ch CHR ''='' \<or>
     [c] = js [CHR 0x5C, CHR ''n''] \<or> [c] = js [CHR 0x5C, CHR ''r''] \<or>
     [c] = js [CHR 0x5C, CHR ''t''] \<or> c = ch CHR '' ''"

text \<open>\<open>let k = dataStart; while (k < html.length) { if (...) k++; else break; }\<close>\<close>

function consume :: "jstring \<Rightarrow> nat \<Rightarrow> nat" where
  "consume html k =
     (if k < length html then (if is_b64_char (html ! k) then consume html (k + 1) else k)
      else k)"
  by pat_completeness auto
termination
  by (relation "measure (\<lambda>(html, k). length html - k)") auto

declare consume.simps [simp del]

text \<open>
  \<open>.replace(/\s+/g, "")\<close>: \<open>\s\<close> is the white space and the line terminators of
  JavaScript.
\<close>

definition is_js_space :: "int \<Rightarrow> bool" where
  "is_js_space c \<longleftrightarrow>
     c \<in> {0x09, 0x0A, 0x0B, 0x0C, 0x0D, 0x20, 0xA0, 0x1680, 0x2028, 0x2029, 0x202F, 0x205F,
          0x3000, 0xFEFF} \<or> (0x2000 \<le> c \<and> c \<le> 0x200A)"

definition strip_ws :: "jstring \<Rightarrow> jstring" where
  "strip_ws s = filter (\<lambda>c. \<not> is_js_space c) s"

subsection \<open>The platform\<close>

text \<open>
  The calls into the platform are parameters of the model: \<open>toLowerCase\<close> of strings,
  \<open>Buffer.from(_, "base64")\<close>, the first 16 hexadecimal digits of the SHA-1 of
  \<open>node:crypto\<close>, and the encoders of \<open>sharp\<close>. An encoder returns the base64 text of its
  output (\<open>.toBuffer()\<close> followed by \<open>.toString("base64")\<close>), or \<open>None\<close> when it throws.
\<close>

record 'b runtime =
  toLowerCase :: "jstring \<Rightarrow> jstring"
  b64decode :: "jstring \<Rightarrow> 'b"
  sha16 :: "'b \<Rightarrow> jstring"
  webp :: "int \<Rightarrow> int \<Rightarrow> 'b \<Rightarrow> jstring option"
  webp_animated :: "int \<Rightarrow> int \<Rightarrow> 'b \<Rightarrow> jstring option"
  gif_reoptimise :: "'b \<Rightarrow> jstring option"

text \<open>
  What happened at one located payload: it was passed through without any call of an
  encoder, an encoder was called for the content hash and returned, an encoder was
  called and threw, or the cache answered.
\<close>

datatype event =
  Passthrough
  | Encoded jstring jstring
  | Failed jstring
  | Reused jstring jstring

text \<open>
  \<open>let v = cache[sha]; if (!v) { ... }\<close>: a missing key and the empty jstring are both
  falsy.
\<close>

definition cached :: "(jstring \<Rightarrow> jstring option) \<Rightarrow> jstring \<Rightarrow> jstring option" where
  "cached c sha = (case c sha of None \<Rightarrow> None | Some v \<Rightarrow> if v = [] then None else Some v)"

text \<open>
  The \<open>try\<close> block of \<open>compressInlineOnce\<close>. The result is the text pushed to \<open>out\<close>, the
  cache, the increment of \<open>replaced\<close> and the event. \<open>quality\<close> and \<open>maxWidth\<close> are
  integers, as the command line gives them.
\<close>

definition recompress ::
  "'b runtime \<Rightarrow> bool \<Rightarrow> int \<Rightarrow> int \<Rightarrow> (jstring \<Rightarrow> jstring option) \<Rightarrow> jstring \<Rightarrow> jstring \<Rightarrow> jstring
     \<Rightarrow> jstring \<times> (jstring \<Rightarrow> jstring option) \<times> nat \<times> event" where
  "recompress rt GIF_WEBP quality maxWidth c mime b64raw orig =
     (let lowerMime = toLowerCase rt mime in
      if startsWith lowerMime (js ''image/svg'') then (orig, c, 0, Passthrough)
      else if lowerMime = (js ''image/gif'') then
        (let input = b64decode rt b64raw; sha = sha16 rt input in
         if GIF_WEBP then
           (case cached c sha of
              Some webpB64 \<Rightarrow> ((js ''data:image/webp;base64,'') @ webpB64, c, 1, Reused sha webpB64)
            | None \<Rightarrow>
               (case webp_animated rt quality maxWidth input of
                  None \<Rightarrow> (orig, c, 0, Failed sha)
                | Some webpB64 \<Rightarrow>
                    ((js ''data:image/webp;base64,'') @ webpB64, c(sha \<mapsto> webpB64), 1,
                     Encoded sha webpB64)))
         else
           (case cached c sha of
              Some gifB64 \<Rightarrow> ((js ''data:image/gif;base64,'') @ gifB64, c, 1, Reused sha gifB64)
            | None \<Rightarrow>
               (case gif_reoptimise rt input of
                  None \<Rightarrow> (orig, c, 0, Failed sha)
                | Some gifB64 \<Rightarrow>
                    ((js ''data:image/gif;base64,'') @ gifB64, c(sha \<mapsto> gifB64), 1,
                     Encoded sha gifB64))))
      else
        (let input = b64decode rt b64raw; sha = sha16 rt input in
         case cached c sha of
           Some webpB64 \<Rightarrow> ((js ''data:image/webp;base64,'') @ webpB64, c, 1, Reused sha webpB64)
         | None \<Rightarrow>
            (case webp rt quality maxWidth input of
               None \<Rightarrow> (orig, c, 0, Failed sha)
             | Some webpB64 \<Rightarrow>
                 ((js ''data:image/webp;base64,'') @ webpB64, c(sha \<mapsto> webpB64), 1,
                  Encoded sha webpB64))))"

subsection \<open>One pass: \<open>compressInlineOnce\<close>\<close>

text \<open>
  The variables of the scan loop. \<open>trace\<close> is not in the source: it records, in order,
  what \<^const>\<open>recompress\<close> did at each located payload. \<open>ensureSharp\<close> is taken to
  succeed; without the library the pass raises before it scans.
\<close>

record scan_state =
  cache :: "jstring \<Rightarrow> jstring option"
  out :: "jstring list"
  ix :: nat
  replaced :: nat
  trace :: "event list"

datatype step = is_Break: Break (state_of: scan_state) | Continue (state_of: scan_state)

text \<open>One execution of the body of \<open>while (true)\<close>.\<close>

definition scan_body ::
  "'b runtime \<Rightarrow> bool \<Rightarrow> int \<Rightarrow> int \<Rightarrow> jstring \<Rightarrow> scan_state \<Rightarrow> step" where
  "scan_body rt GIF_WEBP quality maxWidth html st =
     (case indexOf (toLowerCase rt html) (js ''data:image'') (ix st) of
        None \<Rightarrow> Break st
      | Some start \<Rightarrow>
         (let st1 = st\<lparr>out := out st @ [slice html (ix st) start]\<rparr> in
          case indexOf html (js '';'') (start + 5) of
            None \<Rightarrow> Break (st1\<lparr>out := out st1 @ [drop start html], ix := length html\<rparr>)
          | Some semi \<Rightarrow>
             (let mime = slice html (start + 5) semi in
              case indexOf (toLowerCase rt html) (js ''base64'') (semi + 1) of
                None \<Rightarrow>
                  Continue (st1\<lparr>out := out st1 @ [slice html start (semi + 1)], ix := semi + 1\<rparr>)
              | Some base64Idx \<Rightarrow>
                 (case indexOf html (js '','') base64Idx of
                    None \<Rightarrow> Break (st1\<lparr>out := out st1 @ [drop start html], ix := length html\<rparr>)
                  | Some comma \<Rightarrow>
                     (let dataStart = comma + 1;
                          k = consume html dataStart;
                          b64raw = strip_ws (slice html dataStart k);
                          (piece, c, n, ev) =
                             recompress rt GIF_WEBP quality maxWidth (cache st1) mime b64raw
                               (slice html start k)
                      in Continue (st1\<lparr>cache := c, out := out st1 @ [piece],
                                       replaced := replaced st1 + n,
                                       trace := trace st1 @ [ev], ix := k\<rparr>))))))"

subsection \<open>Bounds that make the scan loop terminate\<close>

lemma startsWith_length: "startsWith s p \<Longrightarrow> length p \<le> length s"
  by (induction p arbitrary: s) (auto split: list.splits)

lemma first_index_bound:
  "first_index needle s = Some j \<Longrightarrow> j + length needle \<le> length s"
proof (induction s arbitrary: j)
  case Nil
  then show ?case by (simp split: if_splits)
next
  case (Cons c cs)
  show ?case
  proof (cases "startsWith (c # cs) needle")
    case True
    with Cons.prems have "j = 0" by simp
    with startsWith_length[OF True] show ?thesis by simp
  next
    case False
    with Cons.prems obtain j' where "first_index needle cs = Some j'" "j = Suc j'" by auto
    with Cons.IH[of j'] show ?thesis by simp
  qed
qed

lemma indexOf_bounds:
  assumes a: "indexOf s needle pos = Some j" and ne: "needle \<noteq> []"
  shows "pos \<le> j \<and> j + length needle \<le> length s"
proof -
  from a obtain j' where j': "first_index needle (drop pos s) = Some j'" "j = pos + j'"
    by (auto simp: indexOf_def)
  from first_index_bound[OF j'(1)] ne have "j' + length needle \<le> length s - pos" "0 < length needle"
    by auto
  with j'(2) show ?thesis by linarith
qed

lemma consume_unfold:
  "k < length html \<and> is_b64_char (html ! k) \<Longrightarrow> consume html k = consume html (k + 1)"
  "\<not> (k < length html \<and> is_b64_char (html ! k)) \<Longrightarrow> consume html k = k"
  by (subst consume.simps, simp)+

lemma consume_ge: "k \<le> consume html k"
proof (induction html k rule: consume.induct)
  case (1 html k)
  show ?case
  proof (cases "k < length html \<and> is_b64_char (html ! k)")
    case True
    with 1 have "k + 1 \<le> consume html (k + 1)" by blast
    with consume_unfold(1)[OF True] show ?thesis by simp
  next
    case False
    from consume_unfold(2)[OF this] show ?thesis by simp
  qed
qed

lemma consume_le: "k \<le> length html \<Longrightarrow> consume html k \<le> length html"
proof (induction html k rule: consume.induct)
  case (1 html k)
  show ?case
  proof (cases "k < length html \<and> is_b64_char (html ! k)")
    case True
    with 1 have "consume html (k + 1) \<le> length html" by simp
    with consume_unfold(1)[OF True] show ?thesis by simp
  next
    case False
    from consume_unfold(2)[OF this] 1(2) show ?thesis by simp
  qed
qed

lemma scan_body_advance:
  assumes "scan_body rt gw q w html st = Continue st'"
  shows "ix st < ix st' \<and> ix st' \<le> length html"
proof (cases "indexOf (toLowerCase rt html) (js ''data:image'') (ix st)")
  case None
  with assms show ?thesis by (simp add: scan_body_def)
next
  case (Some start)
  from indexOf_bounds[OF Some] have s: "ix st \<le> start" by simp
  show ?thesis
  proof (cases "indexOf html (js '';'') (start + 5)")
    case None
    with assms Some show ?thesis by (simp add: scan_body_def Let_def)
  next
    case semi: (Some semi)
    from indexOf_bounds[OF semi] have m: "start + 5 \<le> semi" "semi + 1 \<le> length html" by simp_all
    show ?thesis
    proof (cases "indexOf (toLowerCase rt html) (js ''base64'') (semi + 1)")
      case None
      with assms Some semi have "ix st' = semi + 1"
        by (auto simp: scan_body_def Let_def)
      with s m show ?thesis by simp
    next
      case b: (Some base64Idx)
      from indexOf_bounds[OF b] have b1: "semi + 1 \<le> base64Idx" by simp
      show ?thesis
      proof (cases "indexOf html (js '','') base64Idx")
        case None
        with assms Some semi b show ?thesis by (simp add: scan_body_def Let_def)
      next
        case c: (Some comma)
        from indexOf_bounds[OF c] have c1: "base64Idx \<le> comma" "comma + 1 \<le> length html" by simp_all
        from assms Some semi b c have "ix st' = consume html (comma + 1)"
          by (auto simp: scan_body_def Let_def split: prod.splits)
        with consume_ge[of "comma + 1" html] consume_le[OF c1(2)] s m b1 c1 show ?thesis by simp
      qed
    qed
  qed
qed

function scan :: "'b runtime \<Rightarrow> bool \<Rightarrow> int \<Rightarrow> int \<Rightarrow> jstring \<Rightarrow> scan_state \<Rightarrow> scan_state" where
  "scan rt GIF_WEBP quality maxWidth html st =
     (case scan_body rt GIF_WEBP quality maxWidth html st of
        Break st' \<Rightarrow> st'
      | Continue st' \<Rightarrow> scan rt GIF_WEBP quality maxWidth html st')"
  by pat_completeness auto
termination
proof (relation "measure (\<lambda>(rt, gw, q, w, html, st). length html - ix st)")
  show "wf (measure (\<lambda>(rt :: 'b runtime, gw :: bool, q :: int, w :: int, html, st). length html - ix st))"
    by simp
next
  fix rt :: "'b runtime" and GIF_WEBP quality maxWidth html st x2
  assume "scan_body rt GIF_WEBP quality maxWidth html st = Continue x2"
  from scan_body_advance[OF this]
  show "((rt, GIF_WEBP, quality, maxWidth, html, x2), rt, GIF_WEBP, quality, maxWidth, html, st)
       \<in> measure (\<lambda>(rt, gw, q, w, html, st). length html - ix st)"
    by auto
qed

declare scan.simps [simp del]

definition init_state :: scan_state where
  "init_state = \<lparr>cache = Map.empty, out = [], ix = 0, replaced = 0, trace = []\<rparr>"

definition compressInlineOnce ::
  "'b runtime \<Rightarrow> bool \<Rightarrow> jstring \<Rightarrow> int \<Rightarrow> int \<Rightarrow> jstring \<times> nat" where
  "compressInlineOnce rt GIF_WEBP html quality maxWidth =
     (let st = scan rt GIF_WEBP quality maxWidth html init_state
      in (concat (out st @ [drop (ix st) html]), replaced st))"


subsection \<open>The branches of the loop body\<close>

lemma scan_body_no_marker:
  "indexOf (toLowerCase rt html) (js ''data:image'') (ix st) = None \<Longrightarrow>
   scan_body rt gw q w html st = Break st"
  by (simp add: scan_body_def)

lemma scan_body_no_semi:
  "indexOf (toLowerCase rt html) (js ''data:image'') (ix st) = Some start \<Longrightarrow>
   indexOf html (js '';'') (start + 5) = None \<Longrightarrow>
   scan_body rt gw q w html st =
     Break (st\<lparr>out := out st @ [slice html (ix st) start, drop start html], ix := length html\<rparr>)"
  by (simp add: scan_body_def)

lemma scan_body_no_base64:
  "indexOf (toLowerCase rt html) (js ''data:image'') (ix st) = Some start \<Longrightarrow>
   indexOf html (js '';'') (start + 5) = Some semi \<Longrightarrow>
   indexOf (toLowerCase rt html) (js ''base64'') (semi + 1) = None \<Longrightarrow>
   scan_body rt gw q w html st =
     Continue (st\<lparr>out := out st @ [slice html (ix st) start, slice html start (semi + 1)],
                 ix := semi + 1\<rparr>)"
  by (simp add: scan_body_def)

lemma scan_body_no_comma:
  "indexOf (toLowerCase rt html) (js ''data:image'') (ix st) = Some start \<Longrightarrow>
   indexOf html (js '';'') (start + 5) = Some semi \<Longrightarrow>
   indexOf (toLowerCase rt html) (js ''base64'') (semi + 1) = Some base64Idx \<Longrightarrow>
   indexOf html (js '','') base64Idx = None \<Longrightarrow>
   scan_body rt gw q w html st =
     Break (st\<lparr>out := out st @ [slice html (ix st) start, drop start html], ix := length html\<rparr>)"
  by (simp add: scan_body_def)

lemma scan_body_payload:
  "indexOf (toLowerCase rt html) (js ''data:image'') (ix st) = Some start \<Longrightarrow>
   indexOf html (js '';'') (start + 5) = Some semi \<Longrightarrow>
   indexOf (toLowerCase rt html) (js ''base64'') (semi + 1) = Some base64Idx \<Longrightarrow>
   indexOf html (js '','') base64Idx = Some comma \<Longrightarrow>
   recompress rt gw q w (cache st) (slice html (start + 5) semi)
     (strip_ws (slice html (comma + 1) (consume html (comma + 1))))
     (slice html start (consume html (comma + 1))) = (piece, c, n, ev) \<Longrightarrow>
   scan_body rt gw q w html st =
     Continue (st\<lparr>cache := c, out := out st @ [slice html (ix st) start, piece],
                 replaced := replaced st + n, trace := trace st @ [ev],
                 ix := consume html (comma + 1)\<rparr>)"
  by (simp add: scan_body_def)

lemma scan_Break: "scan_body rt gw q w html st = Break st' \<Longrightarrow> scan rt gw q w html st = st'"
  by (subst scan.simps) simp

lemma scan_Continue:
  "scan_body rt gw q w html st = Continue st' \<Longrightarrow> scan rt gw q w html st = scan rt gw q w html st'"
  by (subst scan.simps) simp


function scan_iterations ::
  "'b runtime \<Rightarrow> bool \<Rightarrow> int \<Rightarrow> int \<Rightarrow> jstring \<Rightarrow> scan_state \<Rightarrow> nat" where
  "scan_iterations rt GIF_WEBP quality maxWidth html st =
     (case scan_body rt GIF_WEBP quality maxWidth html st of
        Break st' \<Rightarrow> 1
      | Continue st' \<Rightarrow> 1 + scan_iterations rt GIF_WEBP quality maxWidth html st')"
  by pat_completeness auto
termination
proof (relation "measure (\<lambda>(rt, gw, q, w, html, st). length html - ix st)")
  show "wf (measure (\<lambda>(rt :: 'b runtime, gw :: bool, q :: int, w :: int, html, st). length html - ix st))"
    by simp
next
  fix rt :: "'b runtime" and GIF_WEBP quality maxWidth html st x2
  assume "scan_body rt GIF_WEBP quality maxWidth html st = Continue x2"
  from scan_body_advance[OF this]
  show "((rt, GIF_WEBP, quality, maxWidth, html, x2), rt, GIF_WEBP, quality, maxWidth, html, st)
       \<in> measure (\<lambda>(rt, gw, q, w, html, st). length html - ix st)"
    by auto
qed

declare scan_iterations.simps [simp del]

lemma scan_iterations_bound:
  "scan_iterations rt gw q w html st \<le> Suc (length html - ix st)"
proof (induction rt gw q w html st rule: scan_iterations.induct)
  case (1 rt gw q w html st)
  show ?case
  proof (cases "scan_body rt gw q w html st")
    case (Break st')
    then show ?thesis by (subst scan_iterations.simps) simp
  next
    case (Continue st')
    from scan_body_advance[OF Continue] have "Suc (length html - ix st') \<le> length html - ix st"
      by linarith
    with 1[OF Continue] have "scan_iterations rt gw q w html st' \<le> length html - ix st"
      by linarith
    with Continue show ?thesis by (subst scan_iterations.simps) simp
  qed
qed

text \<open>The states in which the loop body is executed during \<open>scan\<close>, in order.\<close>

function scan_states ::
  "'b runtime \<Rightarrow> bool \<Rightarrow> int \<Rightarrow> int \<Rightarrow> jstring \<Rightarrow> scan_state \<Rightarrow> scan_state list" where
  "scan_states rt GIF_WEBP quality maxWidth html st =
     st # (case scan_body rt GIF_WEBP quality maxWidth html st of
             Break st' \<Rightarrow> []
           | Continue st' \<Rightarrow> scan_states rt GIF_WEBP quality maxWidth html st')"
  by pat_completeness auto
termination
proof (relation "measure (\<lambda>(rt, gw, q, w, html, st). length html - ix st)")
  show "wf (measure (\<lambda>(rt :: 'b runtime, gw :: bool, q :: int, w :: int, html, st). length html - ix st))"
    by simp
next
  fix rt :: "'b runtime" and GIF_WEBP quality maxWidth html st x2
  assume "scan_body rt GIF_WEBP quality maxWidth html st = Continue x2"
  from scan_body_advance[OF this]
  show "((rt, GIF_WEBP, quality, maxWidth, html, x2), rt, GIF_WEBP, quality, maxWidth, html, st)
       \<in> measure (\<lambda>(rt, gw, q, w, html, st). length html - ix st)"
    by auto
qed

declare scan_states.simps [simp del]

definition failing_codec :: "jstring runtime" where
  "failing_codec = \<lparr>toLowerCase = toLowerCase_basic, b64decode = (\<lambda>s. s), sha16 = (\<lambda>b. b), webp = (\<lambda>q w b. None),
     webp_animated = (\<lambda>q w b. None), gif_reoptimise = (\<lambda>b. None)\<rparr>"

subsection \<open>The budget loop\<close>

text \<open>
  The loop of \<open>main\<close> that repeats the pass. \<open>sizes\<close> collects the \<open>after\<close> of every
  pass, in order: the byte sizes the loop logs. \<open>q\<close>, \<open>w\<close> and the target are integers.
\<close>

record budget_result =
  current :: jstring
  pass :: nat
  lastReplacements :: nat
  sizes :: "nat list"

function budget_loop ::
  "'b runtime \<Rightarrow> bool \<Rightarrow> int \<Rightarrow> jstring \<Rightarrow> nat \<Rightarrow> int \<Rightarrow> int \<Rightarrow> nat list \<Rightarrow> budget_result" where
  "budget_loop rt GIF_WEBP targetBytes cur p q w logged =
     (let before = byteLength cur;
          next = fst (compressInlineOnce rt GIF_WEBP cur q w);
          replacements = snd (compressInlineOnce rt GIF_WEBP cur q w);
          after = byteLength next;
          delta = int before - int after;
          result = \<lparr>current = next, pass = p + 1, lastReplacements = replacements,
                     sizes = logged @ [after]\<rparr>
      in if int after \<le> targetBytes then result
         else if delta \<le> 0 \<or> replacements = 0 then result
         else if q > 40 then
           budget_loop rt GIF_WEBP targetBytes next (p + 1) (max 40 (q - 10)) w (logged @ [after])
         else if w > 1000 then
           budget_loop rt GIF_WEBP targetBytes next (p + 1) q (max 1000 (w - 200)) (logged @ [after])
         else result)"
  by pat_completeness auto
termination
  by (relation "measure (\<lambda>(rt, gw, t, cur, p, q, w, logged). byteLength cur)") auto

declare budget_loop.simps [simp del]

text \<open>
  \<open>main\<close> from \<open>let current = original\<close> to the end of the loop, without
  \<open>--extract-images\<close>; \<open>beforeBytes\<close> is the size of the file on disk and \<open>TARGET\<close> the
  value of \<open>--targetBytes\<close>.
\<close>

definition main_loop ::
  "'b runtime \<Rightarrow> bool \<Rightarrow> int option \<Rightarrow> nat \<Rightarrow> jstring \<Rightarrow> int \<Rightarrow> int \<Rightarrow> budget_result" where
  "main_loop rt GIF_WEBP TARGET beforeBytes original QUALITY MAX_WIDTH =
     (let targetBytes = (case TARGET of Some t \<Rightarrow> t | None \<Rightarrow> int beforeBytes)
      in budget_loop rt GIF_WEBP targetBytes original 0 QUALITY MAX_WIDTH [])"

text \<open>An image library whose WebP output is 16 characters of base64, whatever the input.\<close>

definition growing_codec :: "jstring runtime" where
  "growing_codec = \<lparr>toLowerCase = toLowerCase_basic, b64decode = (\<lambda>s. s), sha16 = (\<lambda>b. b),
     webp = (\<lambda>q w b. Some (js ''UklGRhIAAABXRUJQ'')),
     webp_animated = (\<lambda>q w b. None), gif_reoptimise = (\<lambda>b. None)\<rparr>"


text \<open>The result of one pass, and the condition under which the loop goes on after it.\<close>

definition pass_result :: "'b runtime \<Rightarrow> bool \<Rightarrow> jstring \<Rightarrow> nat \<Rightarrow> int \<Rightarrow> int \<Rightarrow> nat list \<Rightarrow> budget_result" where
  "pass_result rt gw cur p q w logged =
     \<lparr>current = fst (compressInlineOnce rt gw cur q w), pass = p + 1,
       lastReplacements = snd (compressInlineOnce rt gw cur q w),
       sizes = logged @ [byteLength (fst (compressInlineOnce rt gw cur q w))]\<rparr>"

definition pass_continues :: "'b runtime \<Rightarrow> bool \<Rightarrow> int \<Rightarrow> jstring \<Rightarrow> int \<Rightarrow> int \<Rightarrow> bool" where
  "pass_continues rt gw t cur q w \<longleftrightarrow>
     \<not> int (byteLength (fst (compressInlineOnce rt gw cur q w))) \<le> t \<and>
     byteLength (fst (compressInlineOnce rt gw cur q w)) < byteLength cur \<and>
     snd (compressInlineOnce rt gw cur q w) \<noteq> 0"

lemma budget_loop_stop:
  "\<not> pass_continues rt gw t cur q w \<or> (q \<le> 40 \<and> w \<le> 1000) \<Longrightarrow>
   budget_loop rt gw t cur p q w logged = pass_result rt gw cur p q w logged"
  by (subst budget_loop.simps) (auto simp: pass_continues_def pass_result_def Let_def)

lemma budget_loop_quality:
  "pass_continues rt gw t cur q w \<Longrightarrow> 40 < q \<Longrightarrow>
   budget_loop rt gw t cur p q w logged =
     budget_loop rt gw t (fst (compressInlineOnce rt gw cur q w)) (p + 1) (max 40 (q - 10)) w
       (logged @ [byteLength (fst (compressInlineOnce rt gw cur q w))])"
  by (subst budget_loop.simps) (auto simp: pass_continues_def Let_def)

lemma budget_loop_width:
  "pass_continues rt gw t cur q w \<Longrightarrow> q \<le> 40 \<Longrightarrow> 1000 < w \<Longrightarrow>
   budget_loop rt gw t cur p q w logged =
     budget_loop rt gw t (fst (compressInlineOnce rt gw cur q w)) (p + 1) q (max 1000 (w - 200))
       (logged @ [byteLength (fst (compressInlineOnce rt gw cur q w))])"
  by (subst budget_loop.simps) (auto simp: pass_continues_def Let_def)

text \<open>How many times \<open>q\<close> and \<open>w\<close> can still be lowered.\<close>

definition quality_steps :: "int \<Rightarrow> nat" where
  "quality_steps q = (if 40 < q then nat ((q - 31) div 10) else 0)"

definition width_steps :: "int \<Rightarrow> nat" where
  "width_steps w = (if 1000 < w then nat ((w - 801) div 200) else 0)"

lemma div_step: "0 < d \<Longrightarrow> (x::int) div d = (x - d) div d + 1"
  using div_add_self2[of d "x - d"] by simp

lemma quality_steps_dec: "40 < q \<Longrightarrow> Suc (quality_steps (max 40 (q - 10))) = quality_steps q"
proof -
  assume q: "40 < q"
  have d: "(q - 31) div 10 = (q - 41) div 10 + 1"
    using div_step[of 10 "q - 31"] by simp
  show ?thesis
  proof (cases "q \<le> 50")
    case True
    with q have "(q - 41) div 10 = 0" by (intro div_pos_pos_trivial) simp_all
    with d q True show ?thesis by (simp add: quality_steps_def)
  next
    case False
    then have "0 \<le> (q - 41) div 10" by (simp add: pos_imp_zdiv_nonneg_iff)
    with d q False show ?thesis by (simp add: quality_steps_def nat_add_distrib)
  qed
qed

lemma width_steps_dec: "1000 < w \<Longrightarrow> Suc (width_steps (max 1000 (w - 200))) = width_steps w"
proof -
  assume w: "1000 < w"
  have d: "(w - 801) div 200 = (w - 1001) div 200 + 1"
    using div_step[of 200 "w - 801"] by simp
  show ?thesis
  proof (cases "w \<le> 1200")
    case True
    with w have "(w - 1001) div 200 = 0" by (intro div_pos_pos_trivial) simp_all
    with d w True show ?thesis by (simp add: width_steps_def)
  next
    case False
    then have "0 \<le> (w - 1001) div 200" by (simp add: pos_imp_zdiv_nonneg_iff)
    with d w False show ?thesis by (simp add: width_steps_def nat_add_distrib)
  qed
qed

lemma budget_loop_trace:
  "\<exists>new. sizes (budget_loop rt gw t cur p q w logged) = logged @ new \<and> new \<noteq> [] \<and>
         last new = byteLength (current (budget_loop rt gw t cur p q w logged)) \<and>
         sorted_wrt (>) (byteLength cur # butlast new) \<and>
         pass (budget_loop rt gw t cur p q w logged) = p + length new \<and>
         length new \<le> 1 + quality_steps q + width_steps w"
proof (induction "byteLength cur" arbitrary: cur p q w logged rule: less_induct)
  case less
  let ?next = "fst (compressInlineOnce rt gw cur q w)"
  show ?case
  proof (cases "\<not> pass_continues rt gw t cur q w \<or> (q \<le> 40 \<and> w \<le> 1000)")
    case True
    from budget_loop_stop[OF True] show ?thesis
      by (simp add: pass_result_def)
  next
    case False
    then have pc: "pass_continues rt gw t cur q w" and qw: "40 < q \<or> 1000 < w" by auto
    from pc have lt: "byteLength ?next < byteLength cur" by (simp add: pass_continues_def)
    obtain q' w' where step:
      "budget_loop rt gw t cur p q w logged =
         budget_loop rt gw t ?next (p + 1) q' w' (logged @ [byteLength ?next])"
      and steps: "Suc (quality_steps q' + width_steps w') = quality_steps q + width_steps w"
    proof (cases "40 < q")
      case True
      from budget_loop_quality[OF pc True] quality_steps_dec[OF True] that show ?thesis by simp
    next
      case False
      with qw have w: "1000 < w" and q: "q \<le> 40" by auto
      from budget_loop_width[OF pc q w] width_steps_dec[OF w] that show ?thesis by simp
    qed
    from less[OF lt, of "p + 1" q' w' "logged @ [byteLength ?next]"] obtain new where new:
      "sizes (budget_loop rt gw t ?next (p + 1) q' w' (logged @ [byteLength ?next])) =
         (logged @ [byteLength ?next]) @ new" "new \<noteq> []"
      "last new = byteLength (current (budget_loop rt gw t ?next (p + 1) q' w' (logged @ [byteLength ?next])))"
      "sorted_wrt (>) (byteLength ?next # butlast new)"
      "pass (budget_loop rt gw t ?next (p + 1) q' w' (logged @ [byteLength ?next])) = p + 1 + length new"
      "length new \<le> 1 + quality_steps q' + width_steps w'"
      by blast
    have "sorted_wrt (>) (byteLength cur # butlast (byteLength ?next # new))"
      using new(2,4) lt by auto
    with new steps show ?thesis
      unfolding step by (intro exI[of _ "byteLength ?next # new"]) simp
  qed
qed


section \<open>Facts about the scan, shared by the claims\<close>

text \<open>
  The text a pass returns when the loop is left in state \<open>st\<close>:
  \<open>out.push(html.slice(i)); out.join("")\<close>.
\<close>

definition output_of :: "jstring \<Rightarrow> scan_state \<Rightarrow> jstring" where
  "output_of html st = concat (out st @ [drop (ix st) html])"

lemma compressInlineOnce_output:
  "fst (compressInlineOnce rt gw html q w) = output_of html (scan rt gw q w html init_state)"
  by (simp add: compressInlineOnce_def output_of_def Let_def)

lemma scan_body_break:
  assumes "scan_body rt gw q w html st = Break st'"
  shows "(st' = st \<and> indexOf (toLowerCase rt html) (js ''data:image'') (ix st) = None) \<or>
         ix st' = length html"
proof (cases "indexOf (toLowerCase rt html) (js ''data:image'') (ix st)")
  case None
  with scan_body_no_marker[OF None, of gw q w] assms show ?thesis by simp
next
  case m: (Some start)
  show ?thesis
  proof (cases "indexOf html (js '';'') (start + 5)")
    case None
    with scan_body_no_semi[OF m None, of gw q w] assms show ?thesis by auto
  next
    case semi: (Some semi)
    show ?thesis
    proof (cases "indexOf (toLowerCase rt html) (js ''base64'') (semi + 1)")
      case None
      with scan_body_no_base64[OF m semi None, of gw q w] assms show ?thesis by simp
    next
      case b: (Some b)
      show ?thesis
      proof (cases "indexOf html (js '','') b")
        case None
        with scan_body_no_comma[OF m semi b None, of gw q w] assms show ?thesis by auto
      next
        case c: (Some comma)
        obtain piece c' n ev where
          "recompress rt gw q w (cache st) (slice html (start + 5) semi)
             (strip_ws (slice html (comma + 1) (consume html (comma + 1))))
             (slice html start (consume html (comma + 1))) = (piece, c', n, ev)"
          by (metis prod_cases4)
        from scan_body_payload[OF m semi b c this] assms show ?thesis by simp
      qed
    qed
  qed
qed

lemma scan_body_out:
  "scan_body rt gw q w html st = Break st' \<or> scan_body rt gw q w html st = Continue st' \<Longrightarrow>
   \<exists>more. out st' = out st @ more"
proof (cases "indexOf (toLowerCase rt html) (js ''data:image'') (ix st)")
  case None
  assume a: "scan_body rt gw q w html st = Break st' \<or> scan_body rt gw q w html st = Continue st'"
  with scan_body_no_marker[OF None, of gw q w] show ?thesis by auto
next
  case m: (Some start)
  assume a: "scan_body rt gw q w html st = Break st' \<or> scan_body rt gw q w html st = Continue st'"
  show ?thesis
  proof (cases "indexOf html (js '';'') (start + 5)")
    case None
    with scan_body_no_semi[OF m None, of gw q w] a show ?thesis by auto
  next
    case semi: (Some semi)
    show ?thesis
    proof (cases "indexOf (toLowerCase rt html) (js ''base64'') (semi + 1)")
      case None
      with scan_body_no_base64[OF m semi None, of gw q w] a show ?thesis by auto
    next
      case b: (Some b)
      show ?thesis
      proof (cases "indexOf html (js '','') b")
        case None
        with scan_body_no_comma[OF m semi b None, of gw q w] a show ?thesis by auto
      next
        case c: (Some comma)
        obtain piece c' n ev where
          "recompress rt gw q w (cache st) (slice html (start + 5) semi)
             (strip_ws (slice html (comma + 1) (consume html (comma + 1))))
             (slice html start (consume html (comma + 1))) = (piece, c', n, ev)"
          by (metis prod_cases4)
        from scan_body_payload[OF m semi b c this] a show ?thesis by auto
      qed
    qed
  qed
qed

lemma scan_out: "\<exists>more. out (scan rt gw q w html st) = out st @ more"
proof (induction rt gw q w html st rule: scan.induct)
  case (1 rt gw q w html st)
  show ?case
  proof (cases "scan_body rt gw q w html st")
    case (Break st')
    with scan_body_out[of rt gw q w html st st'] scan_Break[OF Break] show ?thesis by simp
  next
    case (Continue st')
    from scan_body_out[of rt gw q w html st st'] Continue obtain m1 where "out st' = out st @ m1"
      by auto
    moreover from "1.IH"[OF Continue] obtain m2 where
      "out (scan rt gw q w html st') = out st' @ m2" by auto
    ultimately show ?thesis using scan_Continue[OF Continue] by simp
  qed
qed

lemma scan_output_prefix:
  "scan_body rt gw q w html st = Continue st' \<Longrightarrow>
   \<exists>rest. output_of html (scan rt gw q w html st) = concat (out st') @ rest"
proof -
  assume c: "scan_body rt gw q w html st = Continue st'"
  from scan_out[of rt gw q w html st'] obtain more where
    "out (scan rt gw q w html st') = out st' @ more" by auto
  with scan_Continue[OF c] show ?thesis by (simp add: output_of_def)
qed

text \<open>
  The events of a trace that are encoder calls for the content hash \<open>h\<close> with a result
  that is not empty (an empty result is not kept by the cache test \<open>if (!v)\<close>).
\<close>

definition is_encoding :: "jstring \<Rightarrow> event \<Rightarrow> bool" where
  "is_encoding h e = (case e of Encoded h' r \<Rightarrow> h' = h \<and> r \<noteq> [] | _ \<Rightarrow> False)"

definition encodings :: "jstring \<Rightarrow> event list \<Rightarrow> event list" where
  "encodings h tr = filter (is_encoding h) tr"

text \<open>
  The invariant of the scan loop that ties the cache to the trace: a hash the cache
  answers for has exactly one such encoding in the trace, with the cached result, and
  every reuse of it carries that result; a hash it does not answer for has none.
\<close>

definition cache_agrees :: "(jstring \<Rightarrow> jstring option) \<Rightarrow> event list \<Rightarrow> bool" where
  "cache_agrees c tr \<longleftrightarrow>
     (\<forall>h. case cached c h of
            None \<Rightarrow> encodings h tr = [] \<and> (\<forall>r. Reused h r \<notin> set tr)
          | Some v \<Rightarrow> encodings h tr = [Encoded h v] \<and> (\<forall>r. Reused h r \<in> set tr \<longrightarrow> r = v))"

lemma recompress_cases:
  assumes "recompress rt gw q w c mime b64raw orig = (piece, c', n, ev)"
  shows "(ev = Passthrough \<and> c' = c \<and> piece = orig \<and> n = 0) \<or>
         (\<exists>sha. ev = Failed sha \<and> cached c sha = None \<and> c' = c \<and> piece = orig \<and> n = 0) \<or>
         (\<exists>sha v. ev = Reused sha v \<and> cached c sha = Some v \<and> c' = c \<and> n = 1 \<and>
            (piece = (js ''data:image/webp;base64,'') @ v \<or> piece = (js ''data:image/gif;base64,'') @ v)) \<or>
         (\<exists>sha v. ev = Encoded sha v \<and> cached c sha = None \<and> c' = c(sha \<mapsto> v) \<and> n = 1 \<and>
            (piece = (js ''data:image/webp;base64,'') @ v \<or> piece = (js ''data:image/gif;base64,'') @ v))"
  using assms unfolding recompress_def Let_def
  by (auto split: if_splits option.splits)

lemma cached_Some_nonempty: "cached c h = Some v \<Longrightarrow> v \<noteq> []"
  by (auto simp: cached_def split: option.splits if_splits)

lemma cached_upd_other: "h \<noteq> sha \<Longrightarrow> cached (c(sha \<mapsto> v)) h = cached c h"
  by (simp add: cached_def)

lemma cached_upd_same: "cached (c(sha \<mapsto> v)) sha = (if v = [] then None else Some v)"
  by (simp add: cached_def)

lemma encodings_snoc: "encodings h (tr @ [e]) = encodings h tr @ (if is_encoding h e then [e] else [])"
  by (simp add: encodings_def)

lemma recompress_agrees:
  assumes inv: "cache_agrees c tr"
      and r: "recompress rt gw q w c mime b64raw orig = (piece, c', n, ev)"
  shows "cache_agrees c' (tr @ [ev])"
proof -
  from recompress_cases[OF r] consider
      (pass) "ev = Passthrough" "c' = c"
    | (fail) sha where "ev = Failed sha" "c' = c"
    | (reuse) sha v where "ev = Reused sha v" "cached c sha = Some v" "c' = c"
    | (enc) sha v where "ev = Encoded sha v" "cached c sha = None" "c' = c(sha \<mapsto> v)"
    by blast
  then show ?thesis
  proof cases
    case pass
    with inv show ?thesis
      unfolding cache_agrees_def
      by (intro allI, elim allE) (auto simp: encodings_snoc is_encoding_def split: option.splits)
  next
    case fail
    with inv show ?thesis
      unfolding cache_agrees_def
      by (intro allI, elim allE) (auto simp: encodings_snoc is_encoding_def split: option.splits)
  next
    case reuse
    show ?thesis unfolding cache_agrees_def
    proof
      fix h
      from inv have ih: "case cached c h of
            None \<Rightarrow> encodings h tr = [] \<and> (\<forall>r. Reused h r \<notin> set tr)
          | Some v \<Rightarrow> encodings h tr = [Encoded h v] \<and> (\<forall>r. Reused h r \<in> set tr \<longrightarrow> r = v)"
        by (simp add: cache_agrees_def)
      show "case cached c' h of
            None \<Rightarrow> encodings h (tr @ [ev]) = [] \<and> (\<forall>r. Reused h r \<notin> set (tr @ [ev]))
          | Some v \<Rightarrow> encodings h (tr @ [ev]) = [Encoded h v] \<and>
                      (\<forall>r. Reused h r \<in> set (tr @ [ev]) \<longrightarrow> r = v)"
        using ih reuse
        by (cases "h = sha") (auto simp: encodings_snoc is_encoding_def split: option.splits)
    qed
  next
    case enc
    show ?thesis unfolding cache_agrees_def
    proof
      fix h
      from inv have ih: "case cached c h of
            None \<Rightarrow> encodings h tr = [] \<and> (\<forall>r. Reused h r \<notin> set tr)
          | Some v \<Rightarrow> encodings h tr = [Encoded h v] \<and> (\<forall>r. Reused h r \<in> set tr \<longrightarrow> r = v)"
        by (simp add: cache_agrees_def)
      show "case cached c' h of
            None \<Rightarrow> encodings h (tr @ [ev]) = [] \<and> (\<forall>r. Reused h r \<notin> set (tr @ [ev]))
          | Some v \<Rightarrow> encodings h (tr @ [ev]) = [Encoded h v] \<and>
                      (\<forall>r. Reused h r \<in> set (tr @ [ev]) \<longrightarrow> r = v)"
      proof (cases "h = sha")
        case True
        with ih enc show ?thesis
          by (auto simp: encodings_snoc is_encoding_def cached_upd_same)
      next
        case False
        with ih enc show ?thesis
          by (auto simp: encodings_snoc is_encoding_def cached_upd_other split: option.splits)
      qed
    qed
  qed
qed

lemma scan_body_agrees:
  assumes inv: "cache_agrees (cache st) (trace st)"
      and step: "scan_body rt gw q w html st = Break st' \<or> scan_body rt gw q w html st = Continue st'"
  shows "cache_agrees (cache st') (trace st')"
proof (cases "indexOf (toLowerCase rt html) (js ''data:image'') (ix st)")
  case None
  with scan_body_no_marker[OF None, of gw q w] step inv show ?thesis by auto
next
  case m: (Some start)
  show ?thesis
  proof (cases "indexOf html (js '';'') (start + 5)")
    case None
    with scan_body_no_semi[OF m None, of gw q w] step inv show ?thesis by auto
  next
    case semi: (Some semi)
    show ?thesis
    proof (cases "indexOf (toLowerCase rt html) (js ''base64'') (semi + 1)")
      case None
      with scan_body_no_base64[OF m semi None, of gw q w] step inv show ?thesis by auto
    next
      case b: (Some b)
      show ?thesis
      proof (cases "indexOf html (js '','') b")
        case None
        with scan_body_no_comma[OF m semi b None, of gw q w] step inv show ?thesis by auto
      next
        case c: (Some comma)
        obtain piece c' n ev where r:
          "recompress rt gw q w (cache st) (slice html (start + 5) semi)
             (strip_ws (slice html (comma + 1) (consume html (comma + 1))))
             (slice html start (consume html (comma + 1))) = (piece, c', n, ev)"
          by (metis prod_cases4)
        from scan_body_payload[OF m semi b c r] step recompress_agrees[OF inv r]
        show ?thesis by auto
      qed
    qed
  qed
qed

lemma scan_agrees:
  "cache_agrees (cache st) (trace st) \<Longrightarrow>
   cache_agrees (cache (scan rt gw q w html st)) (trace (scan rt gw q w html st))"
proof (induction rt gw q w html st rule: scan.induct)
  case (1 rt gw q w html st)
  show ?case
  proof (cases "scan_body rt gw q w html st")
    case (Break st')
    with scan_body_agrees[OF "1.prems", of rt gw q w html st'] scan_Break[OF Break]
    show ?thesis by simp
  next
    case (Continue st')
    with scan_body_agrees[OF "1.prems", of rt gw q w html st']
    have "cache_agrees (cache st') (trace st')" by simp
    from "1.IH"[OF Continue this] scan_Continue[OF Continue] show ?thesis by simp
  qed
qed

lemma init_agrees: "cache_agrees (cache init_state) (trace init_state)"
  by (simp add: cache_agrees_def init_state_def cached_def encodings_def)

lemma agrees_one_encoding:
  assumes "cache_agrees c tr"
  shows "length (encodings h tr) \<le> 1"
    and "Reused h r \<in> set tr \<Longrightarrow> r \<noteq> [] \<and> encodings h tr = [Encoded h r]"
    and "Encoded h r \<in> set tr \<Longrightarrow> r \<noteq> [] \<Longrightarrow> encodings h tr = [Encoded h r]"
proof -
  from assms have ih: "case cached c h of
        None \<Rightarrow> encodings h tr = [] \<and> (\<forall>r. Reused h r \<notin> set tr)
      | Some v \<Rightarrow> encodings h tr = [Encoded h v] \<and> (\<forall>r. Reused h r \<in> set tr \<longrightarrow> r = v)"
    by (simp add: cache_agrees_def)
  then show "length (encodings h tr) \<le> 1"
    by (cases "cached c h") simp_all
  show "r \<noteq> [] \<and> encodings h tr = [Encoded h r]" if "Reused h r \<in> set tr"
    using ih that cached_Some_nonempty[of c h] by (cases "cached c h") auto
  show "encodings h tr = [Encoded h r]" if e: "Encoded h r \<in> set tr" and n: "r \<noteq> []"
  proof -
    from e n have "Encoded h r \<in> set (encodings h tr)"
      by (simp add: encodings_def is_encoding_def)
    with ih show ?thesis by (cases "cached c h") auto
  qed
qed

lemma scan_body_trace:
  "scan_body rt gw q w html st = Break st' \<or> scan_body rt gw q w html st = Continue st' \<Longrightarrow>
   \<exists>more. trace st' = trace st @ more"
proof (cases "indexOf (toLowerCase rt html) (js ''data:image'') (ix st)")
  case None
  assume a: "scan_body rt gw q w html st = Break st' \<or> scan_body rt gw q w html st = Continue st'"
  with scan_body_no_marker[OF None, of gw q w] show ?thesis by auto
next
  case m: (Some start)
  assume a: "scan_body rt gw q w html st = Break st' \<or> scan_body rt gw q w html st = Continue st'"
  show ?thesis
  proof (cases "indexOf html (js '';'') (start + 5)")
    case None
    with scan_body_no_semi[OF m None, of gw q w] a show ?thesis by auto
  next
    case semi: (Some semi)
    show ?thesis
    proof (cases "indexOf (toLowerCase rt html) (js ''base64'') (semi + 1)")
      case None
      with scan_body_no_base64[OF m semi None, of gw q w] a show ?thesis by auto
    next
      case b: (Some b)
      show ?thesis
      proof (cases "indexOf html (js '','') b")
        case None
        with scan_body_no_comma[OF m semi b None, of gw q w] a show ?thesis by auto
      next
        case c: (Some comma)
        obtain piece c' n ev where
          "recompress rt gw q w (cache st) (slice html (start + 5) semi)
             (strip_ws (slice html (comma + 1) (consume html (comma + 1))))
             (slice html start (consume html (comma + 1))) = (piece, c', n, ev)"
          by (metis prod_cases4)
        from scan_body_payload[OF m semi b c this] a show ?thesis by auto
      qed
    qed
  qed
qed

lemma scan_trace: "\<exists>more. trace (scan rt gw q w html st) = trace st @ more"
proof (induction rt gw q w html st rule: scan.induct)
  case (1 rt gw q w html st)
  show ?case
  proof (cases "scan_body rt gw q w html st")
    case (Break st')
    with scan_body_trace[of rt gw q w html st st'] scan_Break[OF Break] show ?thesis by simp
  next
    case (Continue st')
    from scan_body_trace[of rt gw q w html st st'] Continue obtain m1 where "trace st' = trace st @ m1"
      by auto
    moreover from "1.IH"[OF Continue] obtain m2 where
      "trace (scan rt gw q w html st') = trace st' @ m2" by auto
    ultimately show ?thesis using scan_Continue[OF Continue] by simp
  qed
qed

lemma scan_states_unfold:
  "scan_body rt gw q w html st = Break st' \<Longrightarrow> scan_states rt gw q w html st = [st]"
  "scan_body rt gw q w html st = Continue st' \<Longrightarrow>
     scan_states rt gw q w html st = st # scan_states rt gw q w html st'"
  by (subst scan_states.simps, simp)+

lemma scan_states_scan:
  "st \<in> set (scan_states rt gw q w html s0) \<Longrightarrow>
   scan rt gw q w html st = scan rt gw q w html s0"
proof (induction rt gw q w html s0 rule: scan_states.induct)
  case (1 rt gw q w html s0)
  show ?case
  proof (cases "scan_body rt gw q w html s0")
    case (Break s1)
    with "1.prems" scan_states_unfold(1)[OF Break] show ?thesis by simp
  next
    case (Continue s1)
    show ?thesis
    proof (cases "st = s0")
      case True
      then show ?thesis by simp
    next
      case False
      with "1.prems" scan_states_unfold(2)[OF Continue]
      have "st \<in> set (scan_states rt gw q w html s1)" by simp
      from "1.IH"[OF Continue this] scan_Continue[OF Continue] show ?thesis by simp
    qed
  qed
qed

lemma scan_states_agrees:
  "st \<in> set (scan_states rt gw q w html s0) \<Longrightarrow> cache_agrees (cache s0) (trace s0) \<Longrightarrow>
   cache_agrees (cache st) (trace st)"
proof (induction rt gw q w html s0 rule: scan_states.induct)
  case (1 rt gw q w html s0)
  show ?case
  proof (cases "scan_body rt gw q w html s0")
    case (Break s1)
    with "1.prems" scan_states_unfold(1)[OF Break] show ?thesis by simp
  next
    case (Continue s1)
    show ?thesis
    proof (cases "st = s0")
      case True
      with "1.prems"(2) show ?thesis by simp
    next
      case False
      with "1.prems"(1) scan_states_unfold(2)[OF Continue]
      have m: "st \<in> set (scan_states rt gw q w html s1)" by simp
      from scan_body_agrees[OF "1.prems"(2), of rt gw q w html s1] Continue
      have "cache_agrees (cache s1) (trace s1)" by simp
      from "1.IH"[OF Continue m this] show ?thesis .
    qed
  qed
qed

text \<open>
  What the trace of the pass so far says about the content hash \<open>h\<close>: the result of the
  encoder call that succeeded for it, when there was one.
\<close>

definition first_result :: "jstring \<Rightarrow> event list \<Rightarrow> jstring option" where
  "first_result h tr =
     (case encodings h tr of
        [] \<Rightarrow> None
      | e # es \<Rightarrow> (case e of Encoded h' r \<Rightarrow> Some r | _ \<Rightarrow> None))"

text \<open>
  The encoder that is used for a type, and the head of the data URI that carries its
  result.
\<close>

definition encoder_for :: "'b runtime \<Rightarrow> bool \<Rightarrow> int \<Rightarrow> int \<Rightarrow> jstring \<Rightarrow> 'b \<Rightarrow> jstring option" where
  "encoder_for rt GIF_WEBP quality maxWidth lowerMime =
     (if lowerMime = js ''image/gif'' then
        (if GIF_WEBP then webp_animated rt quality maxWidth else gif_reoptimise rt)
      else webp rt quality maxWidth)"

definition uri_head :: "bool \<Rightarrow> jstring \<Rightarrow> jstring" where
  "uri_head GIF_WEBP lowerMime =
     (if lowerMime = js ''image/gif'' \<and> \<not> GIF_WEBP then js ''data:image/gif;base64,''
      else js ''data:image/webp;base64,'')"

text \<open>
  What happens at a located payload, told from the trace of the pass so far and not from
  the cache: an SVG is passed through; content that an earlier encoder call of this pass
  succeeded for is replaced by the result of that call, without a call; for any other
  content the encoder is called once, and the payload is replaced by the result or, when
  the encoder throws, left as its original text. The result is the text put in the place
  of the payload, the increment of \<open>replaced\<close> and the event.
\<close>

definition replacement_by_trace ::
  "'b runtime \<Rightarrow> bool \<Rightarrow> int \<Rightarrow> int \<Rightarrow> event list \<Rightarrow> jstring \<Rightarrow> jstring \<Rightarrow> jstring
     \<Rightarrow> jstring \<times> nat \<times> event" where
  "replacement_by_trace rt GIF_WEBP quality maxWidth tr mime b64raw orig =
     (let lowerMime = toLowerCase rt mime;
          input = b64decode rt b64raw;
          h = sha16 rt input
      in if startsWith lowerMime (js ''image/svg'') then (orig, 0, Passthrough)
         else
           (case first_result h tr of
              Some r \<Rightarrow> (uri_head GIF_WEBP lowerMime @ r, 1, Reused h r)
            | None \<Rightarrow>
               (case encoder_for rt GIF_WEBP quality maxWidth lowerMime input of
                  None \<Rightarrow> (orig, 0, Failed h)
                | Some r \<Rightarrow> (uri_head GIF_WEBP lowerMime @ r, 1, Encoded h r))))"

lemma cached_first_result: "cache_agrees c tr \<Longrightarrow> cached c h = first_result h tr"
proof -
  assume "cache_agrees c tr"
  then have ih: "case cached c h of
        None \<Rightarrow> encodings h tr = [] \<and> (\<forall>r. Reused h r \<notin> set tr)
      | Some v \<Rightarrow> encodings h tr = [Encoded h v] \<and> (\<forall>r. Reused h r \<in> set tr \<longrightarrow> r = v)"
    by (simp add: cache_agrees_def)
  then show ?thesis
    by (cases "cached c h") (simp_all add: first_result_def)
qed

lemma recompress_by_trace:
  assumes "cache_agrees c tr"
      and "recompress rt gw q w c mime b64raw orig = (piece, c', n, ev)"
  shows "replacement_by_trace rt gw q w tr mime b64raw orig = (piece, n, ev)"
  using assms(2) cached_first_result[OF assms(1), of "sha16 rt (b64decode rt b64raw)"]
  unfolding recompress_def replacement_by_trace_def encoder_for_def uri_head_def Let_def
  by (auto split: if_splits option.splits)

section \<open>Filename canonicalization (\<open>_bin/fix-single-file-naming.ts\<close>)\<close>

subsection \<open>Strings of the naming tool\<close>

text \<open>
  The naming tool tells full-width punctuation (U+FF00 to U+FFFF) from ASCII: a file name
  is a list of code units, as above.
\<close>

text \<open>Case folding of the \<open>i\<close> flag and of \<open>toLowerCase\<close> on a host name: the ASCII letters.\<close>

definition lower_unit :: "int \<Rightarrow> int" where
  "lower_unit c = (if 65 \<le> c \<and> c \<le> 90 then c + 32 else c)"

definition FULLWIDTH_TO_ASCII :: "(int \<times> int) list" where
  "FULLWIDTH_TO_ASCII =
     [(0xFF5E, ch CHR ''~''), (0xFF0B, ch CHR ''+''), (0xFF1F, ch CHR ''?''),
      (0xFF05, ch CHR ''%''), (0xFF0A, ch CHR ''*''), (0xFF1A, ch CHR '':''),
      (0xFF5C, ch CHR ''|''), (0xFF02, ch CHR 0x22), (0xFF1C, ch CHR ''<''),
      (0xFF1E, ch CHR ''>''), (0xFF3C, ch CHR 0x5C), (0xFF0F, ch CHR ''/'')]"

text \<open>\<open>s.replace(/[\uFF00-\uFFFF]/g, (ch) => FULLWIDTH_TO_ASCII[ch] ?? ch)\<close>\<close>

definition normalizeWeirdPunctToAscii :: "jstring \<Rightarrow> jstring" where
  "normalizeWeirdPunctToAscii s =
     map (\<lambda>c. if 0xFF00 \<le> c \<and> c \<le> 0xFFFF
               then (case map_of FULLWIDTH_TO_ASCII c of Some a \<Rightarrow> a | None \<Rightarrow> c)
               else c) s"

text \<open>The character class \<open>[~+\\?%*\:|"<>\x00-\x1F/]\<close>.\<close>

definition INVALID_FILENAME_CHARS :: "int \<Rightarrow> bool" where
  "INVALID_FILENAME_CHARS c \<longleftrightarrow>
     c = ch CHR ''~'' \<or> c = ch CHR ''+'' \<or> c = ch CHR 0x5C \<or> c = ch CHR ''?'' \<or>
     c = ch CHR ''%'' \<or> c = ch CHR ''*'' \<or> c = ch CHR '':'' \<or> c = ch CHR ''|'' \<or>
     c = ch CHR 0x22 \<or> c = ch CHR ''<'' \<or> c = ch CHR ''>'' \<or> (0x00 \<le> c \<and> c \<le> 0x1F) \<or>
     c = ch CHR ''/''"

subsection \<open>Regular expressions anchored at the end of the name\<close>

text \<open>
  A pattern that ends in \<open>$\<close> matches a suffix of the string; the match JavaScript
  returns is the leftmost position at which the rest of the string matches. \<open>f\<close> tells
  whether the pattern matches the whole of its argument, and what the match yields.
\<close>

fun first_suffix :: "(jstring \<Rightarrow> 'a option) \<Rightarrow> jstring \<Rightarrow> 'a option" where
  "first_suffix f [] = f []"
| "first_suffix f (c # cs) = (case f (c # cs) of Some r \<Rightarrow> Some r | None \<Rightarrow> first_suffix f cs)"

text \<open>\<open>s.replace(re, ...)\<close> for such a pattern: \<open>f\<close> gives the replacement of the match.\<close>

fun replace_suffix :: "(jstring \<Rightarrow> jstring option) \<Rightarrow> jstring \<Rightarrow> jstring" where
  "replace_suffix f [] = (case f [] of Some r \<Rightarrow> r | None \<Rightarrow> [])"
| "replace_suffix f (c # cs) = (case f (c # cs) of Some r \<Rightarrow> r | None \<Rightarrow> c # replace_suffix f cs)"

text \<open>\<open>HTML_EXT_RE = /\.(?:u\.zip\.html|zip\.html|html|zip)$/i\<close>; the result is \<open>m[0]\<close>.\<close>

definition HTML_EXT_RE :: "jstring \<Rightarrow> jstring option" where
  "HTML_EXT_RE s =
     first_suffix
       (\<lambda>t. if map lower_unit t \<in> set [js ''.u.zip.html'', js ''.zip.html'', js ''.html'', js ''.zip'']
            then Some t else None) s"

text \<open>
  \<open>DATETIME_IN_NAME_RE\<close>, matched against the whole of \<open>t\<close>:
  \<open>-(\d{4}-\d{2}-\d{2}T[\d\uFF1A_]{8}(?:[._]\d{3})?Z)(?:\.[^.]+)?$\<close>. The source writes the eight
  characters after the \<open>T\<close> as \<open>{2}{1}{2}{1}{2}\<close> of one class, which holds the digits, the
  full-width colon U+FF1A and the underscore. The result is group 1.
\<close>

definition is_digit :: "int \<Rightarrow> bool" where
  "is_digit c \<longleftrightarrow> ch CHR ''0'' \<le> c \<and> c \<le> ch CHR ''9''"

definition is_time_char :: "int \<Rightarrow> bool" where
  "is_time_char c \<longleftrightarrow> is_digit c \<or> c = 0xFF1A \<or> c = ch CHR ''_''"

definition one_extension :: "jstring \<Rightarrow> bool" where
  "one_extension t \<longleftrightarrow>
     (case t of [] \<Rightarrow> False | c # cs \<Rightarrow> c = ch CHR ''.'' \<and> cs \<noteq> [] \<and> ch CHR ''.'' \<notin> set cs)"

definition datetime_here :: "jstring \<Rightarrow> jstring option" where
  "datetime_here t =
     (if 20 \<le> length t \<and> t ! 0 = ch CHR ''-'' \<and>
         list_all is_digit (take 4 (drop 1 t)) \<and> t ! 5 = ch CHR ''-'' \<and>
         list_all is_digit (take 2 (drop 6 t)) \<and> t ! 8 = ch CHR ''-'' \<and>
         list_all is_digit (take 2 (drop 9 t)) \<and> t ! 11 = ch CHR ''T'' \<and>
         list_all is_time_char (take 8 (drop 12 t))
      then
        (let z = (if 24 \<le> length t \<and> (t ! 20 = ch CHR ''.'' \<or> t ! 20 = ch CHR ''_'') \<and>
                     list_all is_digit (take 3 (drop 21 t))
                  then 24 else 20)
         in if z < length t \<and> t ! z = ch CHR ''Z'' \<and>
               (drop (z + 1) t = [] \<or> one_extension (drop (z + 1) t))
            then Some (take z (drop 1 t)) else None)
      else None)"

definition DATETIME_IN_NAME_RE :: "jstring \<Rightarrow> jstring option" where
  "DATETIME_IN_NAME_RE s = first_suffix datetime_here s"

subsection \<open>The datetime suffix\<close>

definition replace_all :: "int \<Rightarrow> int \<Rightarrow> jstring \<Rightarrow> jstring" where
  "replace_all a b s = map (\<lambda>c. if c = a then b else c) s"

definition normalizeDatetimeForName :: "jstring \<Rightarrow> jstring" where
  "normalizeDatetimeForName dt =
     replace_all (ch CHR ''.'') (ch CHR ''_'')
       (replace_all (ch CHR '':'') (ch CHR ''_'') (normalizeWeirdPunctToAscii dt))"

text \<open>\<open>isoText\<close> is \<open>d.toISOString()\<close>.\<close>

definition toDatetimeIsoForName :: "jstring \<Rightarrow> jstring" where
  "toDatetimeIsoForName isoText =
     replace_all (ch CHR ''.'') (ch CHR ''_'') (replace_all (ch CHR '':'') (ch CHR ''_'') isoText)"

text \<open>\<open>now\<close> is \<open>new Date().toISOString()\<close>, the reading of the clock.\<close>

definition extractOrMakeDatetimeSuffix :: "jstring \<Rightarrow> jstring \<Rightarrow> jstring" where
  "extractOrMakeDatetimeSuffix originalBase now =
     (case DATETIME_IN_NAME_RE originalBase of
        Some g \<Rightarrow> if g \<noteq> [] then normalizeDatetimeForName g else toDatetimeIsoForName now
      | None \<Rightarrow> toDatetimeIsoForName now)"

subsection \<open>\<open>flattenUrl\<close> and \<open>sanitizeFilename\<close>\<close>

text \<open>What \<open>flattenUrl\<close> reads of \<open>new URL(urlStr)\<close>.\<close>

record url =
  protocol :: jstring
  hostname :: jstring
  pathname :: jstring

definition flattenUrl :: "url \<Rightarrow> jstring" where
  "flattenUrl u =
     (let protocol = remove1 (ch CHR '':'') (protocol u);
          host = map lower_unit (hostname u);
          pathname0 = (if pathname u = [] then js ''/'' else pathname u);
          endedWithSlash = (last pathname0 = ch CHR ''/'' \<and> pathname0 \<noteq> js ''/'');
          pathname1 = replace_all (ch CHR ''/'') (ch CHR ''_'')
                        (if hd pathname0 = ch CHR ''/'' then tl pathname0 else pathname0);
          pathname2 = (if endedWithSlash then pathname1 @ js ''_'' else pathname1)
      in protocol @ js ''__'' @ host @ (if pathname2 \<noteq> [] then js ''_'' @ pathname2 else []))"

text \<open>\<open>name.replace(/_{2,}/g, "_")\<close>\<close>

fun collapse_underscores :: "jstring \<Rightarrow> jstring" where
  "collapse_underscores (a # b # cs) =
     (if a = ch CHR ''_'' \<and> b = ch CHR ''_'' then collapse_underscores (b # cs)
      else a # collapse_underscores (b # cs))"
| "collapse_underscores cs = cs"

text \<open>
  \<open>/_+(\.(?:html|zip(?:\.html)?|u\.zip\.html))$/i\<close> matched against the whole of \<open>t\<close>; the
  result is the replacement \<open>"_$1"\<close>.
\<close>

definition underscores_before_ext :: "jstring \<Rightarrow> jstring option" where
  "underscores_before_ext t =
     (let e = dropWhile (\<lambda>c. c = ch CHR ''_'') t
      in if t \<noteq> [] \<and> hd t = ch CHR ''_'' \<and>
            map lower_unit e \<in> set [js ''.html'', js ''.zip'', js ''.zip.html'', js ''.u.zip.html'']
         then Some (ch CHR ''_'' # e) else None)"

definition sanitizeFilename :: "jstring \<Rightarrow> jstring" where
  "sanitizeFilename name =
     (let name1 = normalizeWeirdPunctToAscii name;
          name2 = map (\<lambda>c. if INVALID_FILENAME_CHARS c then ch CHR ''_'' else c) name1;
          name3 = collapse_underscores name2;
          name4 = dropWhile (\<lambda>c. c = ch CHR ''_'') name3
      in replace_suffix underscores_before_ext name4)"

subsection \<open>The collision resolver\<close>

text \<open>\<open>`${n}`\<close> for a counter: its decimal digits.\<close>

function digits :: "nat \<Rightarrow> jstring" where
  "digits n = (if n < 10 then [48 + int n] else digits (n div 10) @ [48 + int (n mod 10)])"
  by pat_completeness auto
termination
  by (relation "measure id") auto

declare digits.simps [simp del]

text \<open>
  \<open>s.lastIndexOf(t)\<close>: the search runs backwards from the end of \<open>s\<close>; \<open>None\<close> is \<open>-1\<close>.
\<close>

fun last_index_from :: "jstring \<Rightarrow> jstring \<Rightarrow> nat \<Rightarrow> nat option" where
  "last_index_from s t 0 = (if take (length t) s = t then Some 0 else None)"
| "last_index_from s t (Suc q) =
     (if take (length t) (drop (Suc q) s) = t then Some (Suc q) else last_index_from s t q)"

definition lastIndexOf :: "jstring \<Rightarrow> jstring \<Rightarrow> nat option" where
  "lastIndexOf s t = last_index_from s t (length s)"

text \<open>
  \<open>splitNameExt\<close>. When \<open>HTML_EXT_RE\<close> matches, \<open>idx\<close> is \<open>base.lastIndexOf(m[0])\<close>; were it
  \<open>-1\<close>, \<open>base.slice(0, -1)\<close> would drop the last character.
\<close>

definition splitNameExt :: "jstring \<Rightarrow> jstring \<times> jstring" where
  "splitNameExt base =
     (case HTML_EXT_RE base of
        Some m0 \<Rightarrow>
          (case lastIndexOf base m0 of
             Some idx \<Rightarrow> (take idx base, m0)
           | None \<Rightarrow> (butlast base, m0))
      | None \<Rightarrow>
          (case lastIndexOf base (js ''.'') of
             None \<Rightarrow> (base, [])
           | Some li \<Rightarrow> (take li base, drop li base)))"

text \<open>\<open>`${name}-${n}${ext}`\<close> with \<open>{ name, ext } = splitNameExt(newBaseDesired)\<close>\<close>

definition suffixed :: "jstring \<Rightarrow> nat \<Rightarrow> jstring" where
  "suffixed newBaseDesired n =
     (let (name, ext) = splitNameExt newBaseDesired in name @ js ''-'' @ digits n @ ext)"


definition digits_value :: "jstring \<Rightarrow> nat" where
  "digits_value ds = foldl (\<lambda>a d. 10 * a + nat (d - 48)) 0 ds"

lemma digits_value: "digits_value (digits n) = n"
proof (induction n rule: digits.induct)
  case (1 n)
  show ?case
  proof (cases "n < 10")
    case True
    then show ?thesis by (subst digits.simps) (simp add: digits_value_def)
  next
    case False
    with 1 have "digits_value (digits (n div 10)) = n div 10" by simp
    with False show ?thesis by (subst digits.simps) (simp add: digits_value_def)
  qed
qed

lemma digits_inj: "digits m = digits n \<Longrightarrow> m = n"
  by (metis digits_value)

lemma suffixed_inj: "inj (suffixed d)"
proof (rule injI)
  fix m n assume "suffixed d m = suffixed d n"
  then have "digits m = digits n"
    by (auto simp: suffixed_def split: prod.splits)
  then show "m = n" by (rule digits_inj)
qed

subsection \<open>Paths and the file system\<close>

text \<open>
  A path is absolute and normalized: the names from the root down. \<open>path.join(dir, name)\<close>
  of POSIX appends \<open>name\<close> to \<open>dir\<close> and normalizes the result: \<open>name\<close> is cut at every
  \<open>/\<close>, an empty piece and \<open>.\<close> are dropped, and \<open>..\<close> leaves the directory reached so far
  (the root stays the root). A \<open>/\<close> at the end of \<open>name\<close> stays at the end of the path: the
  second component of the result.
\<close>

type_synonym path = "jstring list"

fun segments :: "jstring \<Rightarrow> jstring list" where
  "segments [] = [[]]"
| "segments (c # cs) =
     (case segments cs of
        [] \<Rightarrow> [[c]]
      | s # ss \<Rightarrow> if c = ch CHR ''/'' then [] # s # ss else (c # s) # ss)"

definition norm_step :: "path \<Rightarrow> jstring \<Rightarrow> path" where
  "norm_step p seg =
     (if seg = [] \<or> seg = js ''.'' then p
      else if seg = js ''..'' then butlast p
      else p @ [seg])"

definition path_join :: "path \<Rightarrow> jstring \<Rightarrow> path \<times> bool" where
  "path_join dir name =
     (foldl norm_step dir (segments name), name \<noteq> [] \<and> last name = ch CHR ''/'')"

text \<open>\<open>path.basename\<close> of a normalized path: its last name, and \<open>""\<close> for the root.\<close>

definition basename :: "path \<times> bool \<Rightarrow> jstring" where
  "basename p = (if fst p = [] then [] else last (fst p))"


text \<open>
  The file system: regular files with their contents, and directories, by path; the
  root is a directory. Looking a path up walks it from the root: a name that is missing
  on the way gives \<open>ENOENT\<close>, a regular file on the way gives \<open>ENOTDIR\<close>, and so does a
  regular file reached by a path that ends in \<open>/\<close>. Links and permissions are not
  modelled.
\<close>

datatype 'c node = File 'c | Dir

type_synonym 'c filesystem = "(path, 'c node) fmap"

datatype fs_error = ENOENT | ENOTDIR | EISDIR

definition node_at :: "'c filesystem \<Rightarrow> path \<Rightarrow> 'c node option" where
  "node_at fs p = (if p = [] then Some Dir else fmlookup fs p)"

fun stat_from :: "'c filesystem \<Rightarrow> path \<Rightarrow> path \<Rightarrow> fs_error + 'c node" where
  "stat_from fs here [] =
     (case node_at fs here of None \<Rightarrow> Inl ENOENT | Some n \<Rightarrow> Inr n)"
| "stat_from fs here (s # rest) =
     (case node_at fs here of
        None \<Rightarrow> Inl ENOENT
      | Some (File c) \<Rightarrow> Inl ENOTDIR
      | Some Dir \<Rightarrow> stat_from fs (here @ [s]) rest)"

definition stat :: "'c filesystem \<Rightarrow> path \<times> bool \<Rightarrow> fs_error + 'c node" where
  "stat fs p =
     (case stat_from fs [] (fst p) of
        Inl e \<Rightarrow> Inl e
      | Inr (File c) \<Rightarrow> if snd p then Inl ENOTDIR else Inr (File c)
      | Inr Dir \<Rightarrow> Inr Dir)"

text \<open>\<open>existsFile\<close>: \<open>fs.access(p)\<close> returns exactly when the path can be looked up.\<close>

definition existsFile :: "'c filesystem \<Rightarrow> path \<times> bool \<Rightarrow> bool" where
  "existsFile fs p = (case stat fs p of Inl e \<Rightarrow> False | Inr n \<Rightarrow> True)"

text \<open>\<open>fs.readFile(p, "utf8")\<close>\<close>

definition readFile :: "'c filesystem \<Rightarrow> path \<times> bool \<Rightarrow> fs_error + 'c" where
  "readFile fs p =
     (case stat fs p of
        Inl e \<Rightarrow> Inl e
      | Inr Dir \<Rightarrow> Inl EISDIR
      | Inr (File c) \<Rightarrow> Inr c)"

text \<open>
  \<open>fs.rename(old, new)\<close> for a regular file \<open>old\<close>, as \<open>rename(2)\<close> has it: the directory
  that is to hold \<open>new\<close> must be there, \<open>new\<close> must not end in \<open>/\<close> nor be a directory, and
  then the file is at \<open>new\<close>, replacing a regular file that was there, and no longer at
  \<open>old\<close>. The tool renames regular files only (\<open>maybeFixFile\<close> has read the file before it
  calls the resolver); the move of a directory is not modelled, and \<open>old\<close> being one is
  answered by an error.
\<close>

definition rename :: "'c filesystem \<Rightarrow> path \<times> bool \<Rightarrow> path \<times> bool \<Rightarrow> fs_error + 'c filesystem" where
  "rename fs old new =
     (case stat fs old of
        Inl e \<Rightarrow> Inl e
      | Inr Dir \<Rightarrow> Inl EISDIR
      | Inr (File c) \<Rightarrow>
         (case stat_from fs [] (butlast (fst new)) of
            Inl e \<Rightarrow> Inl e
          | Inr (File c') \<Rightarrow> Inl ENOTDIR
          | Inr Dir \<Rightarrow>
             (case node_at fs (fst new) of
                Some Dir \<Rightarrow> Inl EISDIR
              | Some (File c') \<Rightarrow>
                  if snd new then Inl ENOTDIR
                  else Inr (fmupd (fst new) (File c) (fmdrop (fst old) fs))
              | None \<Rightarrow>
                  if snd new then Inl ENOTDIR
                  else Inr (fmupd (fst new) (File c) (fmdrop (fst old) fs)))))"

subsection \<open>The names the resolver tries lie at different paths\<close>

lemma first_suffix_is_suffix:
  "first_suffix f s = Some r \<Longrightarrow> \<exists>p t. s = p @ t \<and> f t = Some r"
proof (induction s)
  case Nil
  then show ?case by simp
next
  case (Cons c cs)
  show ?case
  proof (cases "f (c # cs)")
    case None
    with Cons.prems have "first_suffix f cs = Some r" by simp
    from Cons.IH[OF this] obtain p t where "cs = p @ t" "f t = Some r" by auto
    then have "c # cs = (c # p) @ t" by simp
    with \<open>f t = Some r\<close> show ?thesis by blast
  next
    case (Some a)
    with Cons.prems have "f (c # cs) = Some r" by simp
    then show ?thesis by (intro exI[of _ "[]"] exI[of _ "c # cs"]) simp
  qed
qed

lemma HTML_EXT_RE_match:
  assumes "HTML_EXT_RE s = Some m0"
  shows "(\<exists>p. s = p @ m0) \<and>
         map lower_unit m0 \<in> set [js ''.u.zip.html'', js ''.zip.html'', js ''.html'', js ''.zip'']"
proof -
  from first_suffix_is_suffix[OF assms[unfolded HTML_EXT_RE_def]]
  show ?thesis by (auto split: if_splits)
qed


lemma HTML_EXT_RE_no_slash:
  assumes "HTML_EXT_RE s = Some m0"
  shows "ch CHR ''/'' \<notin> set m0"
proof
  assume "ch CHR ''/'' \<in> set m0"
  then have "lower_unit (ch CHR ''/'') \<in> set (map lower_unit m0)" by simp
  moreover have "lower_unit (ch CHR ''/'') = 47" by (simp add: lower_unit_def ch_def)
  ultimately have "47 \<in> set (map lower_unit m0)" by simp
  with HTML_EXT_RE_match[OF assms] show False
    by (auto simp: ch_def)
qed

lemma last_index_from_last:
  "last_index_from s t q = Some i \<Longrightarrow>
   i \<le> q \<and> (\<forall>j. i < j \<and> j \<le> q \<longrightarrow> take (length t) (drop j s) \<noteq> t)"
proof (induction q)
  case 0
  then show ?case by (simp split: if_splits)
next
  case (Suc q)
  show ?case
  proof (cases "take (length t) (drop (Suc q) s) = t")
    case True
    with Suc.prems show ?thesis by auto
  next
    case False
    with Suc.prems have "last_index_from s t q = Some i" by simp
    from Suc.IH[OF this] False show ?thesis
      by (metis le_Suc_eq)
  qed
qed

lemma no_dot_after_last:
  assumes "lastIndexOf s (js ''.'') = Some li"
  shows "ch CHR ''.'' \<notin> set (drop (Suc li) s)"
proof
  assume "ch CHR ''.'' \<in> set (drop (Suc li) s)"
  then obtain k where k: "k < length (drop (Suc li) s)" "drop (Suc li) s ! k = ch CHR ''.''"
    by (auto simp: in_set_conv_nth)
  let ?j = "Suc li + k"
  from k have j: "?j < length s" "s ! ?j = ch CHR ''.''" by simp_all
  then have "take 1 (drop ?j s) = [ch CHR ''.'']"
    by (simp add: take_Suc_conv_app_nth hd_drop_conv_nth take_Suc)
  moreover from last_index_from_last[OF assms[unfolded lastIndexOf_def]] j(1)
  have "take (length (js ''.'')) (drop ?j s) \<noteq> js ''.''" by simp
  ultimately show False by simp
qed

lemma splitNameExt_ext_shape:
  "ch CHR ''/'' \<notin> set (snd (splitNameExt d)) \<or> ch CHR ''.'' \<notin> set (tl (snd (splitNameExt d)))"
proof (cases "HTML_EXT_RE d")
  case (Some m0)
  from HTML_EXT_RE_no_slash[OF Some] Some show ?thesis
    by (cases "lastIndexOf d m0") (simp_all add: splitNameExt_def)
next
  case None
  show ?thesis
  proof (cases "lastIndexOf d (js ''.'')")
    case n: None
    with None show ?thesis by (simp add: splitNameExt_def)
  next
    case (Some li)
    from no_dot_after_last[OF Some] None Some show ?thesis
      by (simp add: splitNameExt_def drop_Suc tl_drop)
  qed
qed

lemma segments_nonempty [simp]: "segments s \<noteq> []"
  by (induction s) (simp_all split: list.splits)

lemma segments_Cons [simp]:
  "segments (c # cs) =
     (if c = ch CHR ''/'' then [] # segments cs
      else (c # hd (segments cs)) # tl (segments cs))"
  by (cases "segments cs") simp_all

declare segments.simps(2) [simp del]

lemma segments_plain: "ch CHR ''/'' \<notin> set w \<Longrightarrow> segments w = [w]"
  by (induction w) simp_all

lemma segments_cat:
  "segments (xs @ ys) =
     butlast (segments xs) @ [last (segments xs) @ hd (segments ys)] @ tl (segments ys)"
proof (induction xs)
  case Nil
  then show ?case by simp
next
  case (Cons c cs)
  show ?case
  proof (cases "tl (segments cs) = []")
    case True
    then obtain a where a: "segments cs = [a]"
      by (cases "segments cs") simp_all
    with Cons show ?thesis by simp
  next
    case False
    then obtain a b rest where a: "segments cs = a # b # rest"
      by (cases "segments cs"; cases "tl (segments cs)") simp_all
    with Cons show ?thesis by simp
  qed
qed

lemma segments_chars: "s \<in> set (segments xs) \<Longrightarrow> set s \<subseteq> set xs"
proof (induction xs arbitrary: s)
  case Nil
  then show ?case by simp
next
  case (Cons c cs)
  have h: "hd (segments cs) \<in> set (segments cs)" by simp
  have t: "set (tl (segments cs)) \<subseteq> set (segments cs)"
    by (cases "segments cs") auto
  from Cons.prems consider "s = []" | "s \<in> set (segments cs)" | "s = c # hd (segments cs)"
    using t by (auto split: if_splits)
  then show ?case
  proof cases
    case 1
    then show ?thesis by simp
  next
    case 2
    from Cons.IH[OF this] show ?thesis by auto
  next
    case 3
    with Cons.IH[OF h] show ?thesis by auto
  qed
qed

lemma segments_tl_chars: "s \<in> set (tl (segments xs)) \<Longrightarrow> set s \<subseteq> set (tl xs)"
proof (cases xs)
  case Nil
  assume "s \<in> set (tl (segments xs))"
  with Nil show ?thesis by simp
next
  case (Cons c cs)
  assume "s \<in> set (tl (segments xs))"
  with Cons have "s \<in> set (segments cs)"
    by (cases "segments cs") (auto split: if_splits)
  from segments_chars[OF this] Cons show ?thesis by simp
qed

lemma foldl_norm_plain:
  "\<forall>s\<in>set Y. s \<noteq> js ''..'' \<Longrightarrow>
   foldl norm_step p Y = p @ filter (\<lambda>s. s \<noteq> [] \<and> s \<noteq> js ''.'') Y"
  by (induction Y arbitrary: p) (simp_all add: norm_step_def)

text \<open>
  The path of a name \<open>name @ mid @ ext\<close> in which \<open>mid\<close> holds a \<open>-\<close> and no \<open>/\<close>, and \<open>ext\<close>
  is the extension part of some name: \<open>mid\<close> stays in the path, in the same place.
\<close>

lemma path_join_mid:
  assumes ext: "ch CHR ''/'' \<notin> set ext \<or> ch CHR ''.'' \<notin> set (tl ext)"
      and mid: "ch CHR ''/'' \<notin> set mid" "ch CHR ''-'' \<in> set mid"
  shows "fst (path_join dir (name @ mid @ ext)) =
           foldl norm_step dir (butlast (segments name)) @
           [last (segments name) @ mid @ hd (segments ext)] @
           filter (\<lambda>s. s \<noteq> [] \<and> s \<noteq> js ''.'') (tl (segments ext))"
proof -
  let ?m = "last (segments name) @ mid @ hd (segments ext)"
  have "segments (mid @ ext) = [mid @ hd (segments ext)] @ tl (segments ext)"
    using segments_cat[of mid ext] segments_plain[OF mid(1)] by simp
  then have s: "segments (name @ mid @ ext) =
      butlast (segments name) @ [?m] @ tl (segments ext)"
    using segments_cat[of name "mid @ ext"] by simp
  from mid(2) have mm: "ch CHR ''-'' \<in> set ?m" by simp
  have ne: "?m \<noteq> x" if "ch CHR ''-'' \<notin> set x" for x
  proof
    assume e: "?m = x"
    from mm have "ch CHR ''-'' \<in> set x" unfolding e .
    with that show False ..
  qed
  have "?m \<noteq> [] \<and> ?m \<noteq> js ''.'' \<and> ?m \<noteq> js ''..''"
    by (intro conjI ne) (simp_all add: ch_def)
  then have n: "norm_step p ?m = p @ [?m]" for p
    by (simp add: norm_step_def)
  have "s \<noteq> js ''..''" if "s \<in> set (tl (segments ext))" for s
  proof (cases "ch CHR ''/'' \<notin> set ext")
    case True
    from segments_plain[OF this] that show ?thesis by simp
  next
    case False
    with ext have "ch CHR ''.'' \<notin> set (tl ext)" by simp
    with segments_tl_chars[OF that] have "ch CHR ''.'' \<notin> set s" by auto
    then show ?thesis by auto
  qed
  then have "\<forall>s\<in>set (tl (segments ext)). s \<noteq> js ''..''" by simp
  from foldl_norm_plain[OF this] s n show ?thesis
    by (simp add: path_join_def)
qed

lemma digits_range: "x \<in> set (digits n) \<Longrightarrow> 48 \<le> x \<and> x \<le> 57"
proof (induction n rule: digits.induct)
  case (1 n)
  show ?case
  proof (cases "n < 10")
    case True
    with "1.prems" show ?thesis by (subst (asm) digits.simps) simp
  next
    case False
    with "1.prems" have "x \<in> set (digits (n div 10)) \<or> x = 48 + int (n mod 10)"
      by (subst (asm) digits.simps) auto
    with 1(1)[OF False] show ?thesis by auto
  qed
qed

lemma suffixed_path:
  "fst (path_join dir (suffixed d n)) =
     foldl norm_step dir (butlast (segments (fst (splitNameExt d)))) @
     [last (segments (fst (splitNameExt d))) @ (js ''-'' @ digits n) @
        hd (segments (snd (splitNameExt d)))] @
     filter (\<lambda>s. s \<noteq> [] \<and> s \<noteq> js ''.'') (tl (segments (snd (splitNameExt d))))"
proof -
  have m: "ch CHR ''/'' \<notin> set (js ''-'' @ digits n)" "ch CHR ''-'' \<in> set (js ''-'' @ digits n)"
    using digits_range[of "ch CHR ''/''" n] by (auto simp: ch_def)
  have "suffixed d n = fst (splitNameExt d) @ (js ''-'' @ digits n) @ snd (splitNameExt d)"
    by (simp add: suffixed_def split: prod.splits)
  with path_join_mid[OF splitNameExt_ext_shape[of d] m, of dir "fst (splitNameExt d)"]
  show ?thesis by simp
qed

lemma suffixed_path_inj: "inj (\<lambda>n. fst (path_join dir (suffixed d n)))"
proof (rule injI)
  fix m n
  assume "fst (path_join dir (suffixed d m)) = fst (path_join dir (suffixed d n))"
  then have "digits m = digits n"
    unfolding suffixed_path by simp
  then show "m = n" by (rule digits_inj)
qed

lemma finite_suffixed: "finite K \<Longrightarrow> finite {m. fst (path_join dir (suffixed d m)) \<in> K}"
proof -
  assume "finite K"
  then have "finite ((\<lambda>n. fst (path_join dir (suffixed d n))) -` K)"
    by (intro finite_vimageI suffixed_path_inj)
  then show ?thesis by (simp add: vimage_def)
qed

lemma stat_from_node:
  "stat_from fs here rest = Inr n \<Longrightarrow> node_at fs (here @ rest) = Some n"
proof (induction rest arbitrary: here)
  case Nil
  then show ?case by (simp split: option.splits)
next
  case (Cons s rest)
  then have "stat_from fs (here @ [s]) rest = Inr n"
    by (simp split: option.splits node.splits)
  from Cons.IH[OF this] show ?case by simp
qed

lemma existsFile_dom: "existsFile fs p \<Longrightarrow> fst p \<in> insert [] (fmdom' fs)"
proof -
  assume "existsFile fs p"
  then obtain n where "stat_from fs [] (fst p) = Inr n"
    by (auto simp: existsFile_def stat_def split: sum.splits node.splits if_splits)
  from stat_from_node[OF this] show ?thesis
    by (auto simp: node_at_def fmdom'I split: if_splits)
qed

subsection \<open>The collision resolver\<close>

text \<open>
  The loop of \<open>dedupeAndMaybeRename\<close>, with its variables \<open>candidate\<close> and \<open>n\<close>. The file
  system holds finitely many paths and the names tried lie at different paths, so the
  loop ends. An error of \<open>fs.rename\<close> leaves the function as an exception.
\<close>

function dedupe_loop ::
  "bool \<Rightarrow> 'c filesystem \<Rightarrow> path \<Rightarrow> jstring \<Rightarrow> jstring \<Rightarrow> jstring \<Rightarrow> nat
     \<Rightarrow> fs_error + (jstring \<times> 'c filesystem)" where
  "dedupe_loop applyFlag fs dir oldBase newBaseDesired candidate n =
     (if candidate = oldBase then Inr (candidate, fs)
      else if \<not> existsFile fs (path_join dir candidate) then
        (if applyFlag then
           (case rename fs (path_join dir oldBase) (path_join dir candidate) of
              Inl e \<Rightarrow> Inl e
            | Inr fs' \<Rightarrow> Inr (candidate, fs'))
         else Inr (candidate, fs))
      else dedupe_loop applyFlag fs dir oldBase newBaseDesired (suffixed newBaseDesired n) (n + 1))"
  by pat_completeness auto
termination
proof (relation "measure (\<lambda>(a, fs, dir, old, d, c, n).
          2 * card {m. n \<le> m \<and> fst (path_join dir (suffixed d m)) \<in> insert [] (fmdom' fs)} +
          (if fst (path_join dir c) \<in> insert [] (fmdom' fs) then 1 else 0))")
  show "wf (measure (\<lambda>(a :: bool, fs :: 'c filesystem, dir :: path, old :: jstring, d, c, n).
          2 * card {m. n \<le> m \<and> fst (path_join dir (suffixed d m)) \<in> insert [] (fmdom' fs)} +
          (if fst (path_join dir c) \<in> insert [] (fmdom' fs) then 1 else 0)))"
    by simp
next
  fix applyFlag :: bool and fs :: "'c filesystem" and dir :: path
    and oldBase newBaseDesired candidate :: jstring and n :: nat
  assume "candidate \<noteq> oldBase" and "\<not> \<not> existsFile fs (path_join dir candidate)"
  then have c: "fst (path_join dir candidate) \<in> insert [] (fmdom' fs)"
    using existsFile_dom by blast
  let ?K = "insert [] (fmdom' fs)"
  let ?A = "{m. n \<le> m \<and> fst (path_join dir (suffixed newBaseDesired m)) \<in> ?K}"
  let ?B = "{m. n + 1 \<le> m \<and> fst (path_join dir (suffixed newBaseDesired m)) \<in> ?K}"
  have "finite ?K" by simp
  from finite_suffixed[OF this, of dir newBaseDesired] have fin: "finite ?A"
    by (rule rev_finite_subset) auto
  have sub: "?B \<subseteq> ?A" by auto
  have "2 * card ?B + (if fst (path_join dir (suffixed newBaseDesired n)) \<in> ?K then 1 else 0)
          < 2 * card ?A + 1"
  proof (cases "fst (path_join dir (suffixed newBaseDesired n)) \<in> ?K")
    case True
    then have "n \<in> ?A" "n \<notin> ?B" by auto
    with sub have "?B \<subset> ?A" by blast
    from psubset_card_mono[OF fin this] True show ?thesis by simp
  next
    case False
    from card_mono[OF fin sub] False show ?thesis by simp
  qed
  with c show "((applyFlag, fs, dir, oldBase, newBaseDesired, suffixed newBaseDesired n, n + 1),
         applyFlag, fs, dir, oldBase, newBaseDesired, candidate, n)
       \<in> measure (\<lambda>(a, fs, dir, old, d, c, n).
          2 * card {m. n \<le> m \<and> fst (path_join dir (suffixed d m)) \<in> insert [] (fmdom' fs)} +
          (if fst (path_join dir c) \<in> insert [] (fmdom' fs) then 1 else 0))"
    by simp
qed

declare dedupe_loop.simps [simp del]

definition dedupeAndMaybeRename ::
  "bool \<Rightarrow> 'c filesystem \<Rightarrow> path \<Rightarrow> jstring \<Rightarrow> jstring \<Rightarrow> fs_error + (jstring \<times> 'c filesystem)" where
  "dedupeAndMaybeRename applyFlag fs dir oldBase newBaseDesired =
     dedupe_loop applyFlag fs dir oldBase newBaseDesired newBaseDesired 2"

subsection \<open>\<open>maybeFixFile\<close> and \<open>processDir\<close>\<close>

record flags =
  applyFlag :: bool
  quiet :: bool
  preferCanonical :: bool

text \<open>
  What the tool prints: a line of \<open>logChange\<close>, with the two names and \<open>RENAME\<close> rather
  than \<open>DRYRUN\<close>, or the \<open>ERR\<close> line of \<open>processDir\<close> for a file whose processing raised.
  \<open>logChange\<close> prints \<open>path.basename\<close> of both paths.
\<close>

datatype report = Report jstring jstring bool | Err path fs_error

definition logChange :: "path \<Rightarrow> path \<times> bool \<Rightarrow> bool \<Rightarrow> report" where
  "logChange fromPath toPath applied = Report (basename (fromPath, False)) (basename toPath) applied"

text \<open>
  \<open>extractBestUrl\<close> (regular expressions over the document and the platform's URL parser)
  and \<open>new URL\<close> are parameters: \<open>extract html preferCanonical\<close> is the cleaned URL or
  \<open>None\<close>, and \<open>parse\<close> gives the parts of a URL that \<open>flattenUrl\<close> reads. \<open>filepath\<close> is
  a path that \<open>walk\<close> yields: the directory walked, and the name of an entry.
\<close>

definition maybeFixFile ::
  "('c \<Rightarrow> bool \<Rightarrow> jstring option) \<Rightarrow> (jstring \<Rightarrow> url) \<Rightarrow> jstring \<Rightarrow> flags \<Rightarrow> 'c filesystem
     \<Rightarrow> path \<Rightarrow> fs_error + ('c filesystem \<times> report list)" where
  "maybeFixFile extract parse now fl fs filepath =
     (let originalBase = basename (filepath, False);
          originalDir = butlast filepath
      in case readFile fs (filepath, False) of
        Inl e \<Rightarrow> Inl e
      | Inr html \<Rightarrow>
         (case extract html (preferCanonical fl) of
            None \<Rightarrow>
              (let normalized = normalizeWeirdPunctToAscii originalBase in
               if normalized \<noteq> originalBase then
                 (case dedupeAndMaybeRename (applyFlag fl) fs originalDir originalBase normalized of
                    Inl e \<Rightarrow> Inl e
                  | Inr (newPath, fs') \<Rightarrow>
                      Inr (fs', if quiet fl then []
                                else [logChange filepath (path_join originalDir newPath)
                                        (applyFlag fl)]))
               else Inr (fs, []))
          | Some urlStr \<Rightarrow>
              (let flatUrlBase = flattenUrl (parse urlStr);
                   dtSuffix = extractOrMakeDatetimeSuffix originalBase now;
                   ext = (case HTML_EXT_RE originalBase of Some m0 \<Rightarrow> m0 | None \<Rightarrow> js ''.html'');
                   newBase = sanitizeFilename (flatUrlBase @ js ''-'' @ dtSuffix @ ext)
               in if newBase = originalBase then Inr (fs, [])
                  else
                    (case dedupeAndMaybeRename (applyFlag fl) fs originalDir originalBase newBase of
                       Inl e \<Rightarrow> Inl e
                     | Inr (finalName, fs') \<Rightarrow>
                         Inr (fs', if quiet fl then []
                                   else [logChange filepath (path_join originalDir finalName)
                                           (applyFlag fl)])))))"

text \<open>
  \<open>processDir\<close> over the regular files of one directory, by the names \<open>readdir\<close> gave and
  in its order; \<open>walk\<close> yields \<open>path.join(dir, name)\<close> for each, and \<open>HTML_EXT_RE\<close>, which
  holds no \<open>/\<close>, is tested on that path. \<open>clock f\<close> is the reading of the clock while file
  \<open>f\<close> is processed. A file whose processing raises is logged, unless \<open>--quiet\<close> is given,
  and skipped.
\<close>

fun processDir ::
  "('c \<Rightarrow> bool \<Rightarrow> jstring option) \<Rightarrow> (jstring \<Rightarrow> url) \<Rightarrow> (jstring \<Rightarrow> jstring) \<Rightarrow> flags
     \<Rightarrow> 'c filesystem \<Rightarrow> path \<Rightarrow> jstring list \<Rightarrow> 'c filesystem \<times> report list" where
  "processDir extract parse clock fl fs dir [] = (fs, [])"
| "processDir extract parse clock fl fs dir (file # files) =
     (if HTML_EXT_RE file = None then processDir extract parse clock fl fs dir files
      else
        (case maybeFixFile extract parse (clock file) fl fs (fst (path_join dir file)) of
           Inl e \<Rightarrow>
             (let (fs', rest) = processDir extract parse clock fl fs dir files
              in (fs', (if quiet fl then [] else [Err (fst (path_join dir file)) e]) @ rest))
         | Inr (fs', lines) \<Rightarrow>
             (let (fs'', rest) = processDir extract parse clock fl fs' dir files
              in (fs'', lines @ rest))))"

section \<open>Facts about the naming tool, shared by the claims\<close>






subsection \<open>Looking paths up\<close>









subsection \<open>The parts of a name\<close>





text \<open>Two underscores next to each other, somewhere in the name.\<close>

fun has_double_underscore :: "jstring \<Rightarrow> bool" where
  "has_double_underscore (a # b # cs) =
     ((a = ch CHR ''_'' \<and> b = ch CHR ''_'') \<or> has_double_underscore (b # cs))"
| "has_double_underscore cs = False"

lemma collapse_hd: "\<exists>ys. collapse_underscores (x # xs) = x # ys"
proof (induction xs arbitrary: x)
  case Nil
  then show ?case by simp
next
  case (Cons b cs)
  from Cons[of b] obtain ys where "collapse_underscores (b # cs) = b # ys" by auto
  then show ?case by auto
qed

lemma collapse_no_double: "\<not> has_double_underscore (collapse_underscores s)"
proof (induction s rule: collapse_underscores.induct)
  case (1 a b cs)
  from collapse_hd[of b cs] obtain ys where ys: "collapse_underscores (b # cs) = b # ys" by auto
  show ?case
  proof (cases "a = ch CHR ''_'' \<and> b = ch CHR ''_''")
    case True
    with 1 show ?thesis by simp
  next
    case False
    with 1 ys show ?thesis by auto
  qed
qed simp_all

lemma double_append: "has_double_underscore ys \<Longrightarrow> has_double_underscore (xs @ ys)"
proof (induction xs)
  case Nil
  then show ?case by simp
next
  case (Cons x xs)
  then have h: "has_double_underscore (xs @ ys)" by simp
  then obtain b cs where "xs @ ys = b # cs" by (cases "xs @ ys") auto
  with h show ?case by simp
qed

lemma dropWhile_no_double:
  "\<not> has_double_underscore s \<Longrightarrow> \<not> has_double_underscore (dropWhile P s)"
  using double_append[of "dropWhile P s" "takeWhile P s"] by auto

lemma underscores_before_ext_id:
  assumes "underscores_before_ext t = Some r" and "\<not> has_double_underscore t"
  shows "r = t"
proof -
  from assms(1) obtain cs where t: "t = ch CHR ''_'' # cs"
    and r: "r = ch CHR ''_'' # dropWhile (\<lambda>c. c = ch CHR ''_'') t"
    by (cases t) (auto simp: underscores_before_ext_def Let_def split: if_splits)
  from assms(2) t have "cs = [] \<or> hd cs \<noteq> ch CHR ''_''"
    by (cases cs) auto
  then have "dropWhile (\<lambda>c. c = ch CHR ''_'') cs = cs"
    by (cases cs) auto
  with t r show ?thesis by simp
qed

lemma replace_suffix_id:
  "\<not> has_double_underscore s \<Longrightarrow> replace_suffix underscores_before_ext s = s"
proof (induction s)
  case Nil
  then show ?case
    by (simp add: underscores_before_ext_def)
next
  case (Cons c cs)
  from Cons.prems double_append[of cs "[c]"] have nd: "\<not> has_double_underscore cs" by auto
  show ?case
  proof (cases "underscores_before_ext (c # cs)")
    case None
    with Cons.IH[OF nd] show ?thesis by simp
  next
    case (Some r)
    from underscores_before_ext_id[OF Some Cons.prems] Some show ?thesis by simp
  qed
qed

lemma sanitize_no_double: "\<not> has_double_underscore (sanitizeFilename name)"
proof -
  let ?n3 = "collapse_underscores (map (\<lambda>c. if INVALID_FILENAME_CHARS c then ch CHR ''_'' else c)
      (normalizeWeirdPunctToAscii name))"
  have "\<not> has_double_underscore (dropWhile (\<lambda>c. c = ch CHR ''_'') ?n3)"
    by (rule dropWhile_no_double[OF collapse_no_double])
  with replace_suffix_id[OF this] show ?thesis
    by (simp add: sanitizeFilename_def Let_def)
qed



subsection \<open>Runs without \<open>--apply\<close>\<close>




subsection \<open>Examples\<close>

text \<open>
  A document for the examples: \<open>extractBestUrl\<close> finds \<open>https://example.com/a\<close> in it, and
  the URL parser reads that URL. \<open>no_url\<close> is \<open>extractBestUrl\<close> on documents that name no
  URL.
\<close>

definition example_extract :: "string \<Rightarrow> bool \<Rightarrow> jstring option" where
  "example_extract html pc = Some (js ''https://example.com/a'')"


definition example_parse :: "jstring \<Rightarrow> url" where
  "example_parse urlStr =
     \<lparr>protocol = js ''https:'', hostname = js ''example.com'', pathname = js ''/a''\<rparr>"

definition apply_flags :: flags where
  "apply_flags = \<lparr>applyFlag = True, quiet = False, preferCanonical = True\<rparr>"


text \<open>
  The file system that holds the directory \<open>/snapshots\<close> with the given regular files in
  it, and nothing else.
\<close>

definition snapshots :: path where
  "snapshots = [js ''snapshots'']"

definition snapshots_with :: "(jstring \<times> 'c) list \<Rightarrow> 'c filesystem" where
  "snapshots_with files =
     foldr (\<lambda>(name, c). fmupd (snapshots @ [name]) (File c)) files (fmupd snapshots Dir fmempty)"

section \<open>Claims about the compaction pass\<close>

text \<open>
  C10. A pass of \<open>compressInlineOnce\<close> terminates, whatever the text, whatever
  \<open>toLowerCase\<close> returns and whatever the encoders do. An execution of the loop body that
  goes on moves the scan index \<open>i\<close> strictly forward and keeps it inside the document; one
  that leaves the loop has found no marker, or has set \<open>i\<close> to the end of the document. So
  the body runs at most \<open>html.length - i + 1\<close> times. (\<^const>\<open>scan\<close> and \<^const>\<open>consume\<close>
  are total functions by their termination proofs.)
\<close>

theorem scan_loop_advances:
  "(\<forall>st'. scan_body rt gw q w html st = Continue st' \<longrightarrow>
          ix st < ix st' \<and> ix st' \<le> length html) \<and>
   (\<forall>st'. scan_body rt gw q w html st = Break st' \<longrightarrow>
          (st' = st \<and> indexOf (toLowerCase rt html) (js ''data:image'') (ix st) = None) \<or>
          ix st' = length html) \<and>
   scan_iterations rt gw q w html st \<le> Suc (length html - ix st)"
  using scan_body_advance scan_body_break scan_iterations_bound by blast

theorem scan_loop_advances_witness:
  "\<not> is_Break (scan_body failing_codec False 70 1600 (js ''<a data:image/png;base64,AA?>'') init_state) \<and>
   ix init_state <
     ix (state_of (scan_body failing_codec False 70 1600 (js ''<a data:image/png;base64,AA?>'') init_state)) \<and>
   ix (state_of (scan_body failing_codec False 70 1600 (js ''<a data:image/png;base64,AA?>'') init_state))
     \<le> length (js ''<a data:image/png;base64,AA?>'') \<and>
   scan_iterations failing_codec False 70 1600 (js ''<a data:image/png;base64,AA?>'') init_state
     \<le> Suc (length (js ''<a data:image/png;base64,AA?>'') - ix init_state)"
proof -
  let ?r = "scan_body failing_codec False 70 1600 (js ''<a data:image/png;base64,AA?>'') init_state"
  have c: "\<not> is_Break ?r"
    by code_simp
  then have "?r = Continue (state_of ?r)"
    by (cases ?r) simp_all
  with scan_loop_advances[of failing_codec False 70 1600 "js ''<a data:image/png;base64,AA?>''" init_state] c
  show ?thesis by blast
qed


text \<open>
  C1, as the code has it. The loop of \<open>main\<close> always ends, after at most one pass more
  than the number of times quality and width can still be lowered; it logs one size per
  pass; the sizes before the last pass are strictly decreasing, starting from the size of
  the text it was given; and the text it returns is the result of the last pass, whatever
  its size.
\<close>

theorem budget_loop_passes:
  "sizes (main_loop rt gw TARGET beforeBytes original q w) \<noteq> [] \<and>
   length (sizes (main_loop rt gw TARGET beforeBytes original q w)) =
     pass (main_loop rt gw TARGET beforeBytes original q w) \<and>
   pass (main_loop rt gw TARGET beforeBytes original q w) \<le> 1 + quality_steps q + width_steps w \<and>
   sorted_wrt (>) (byteLength original # butlast (sizes (main_loop rt gw TARGET beforeBytes original q w))) \<and>
   byteLength (current (main_loop rt gw TARGET beforeBytes original q w)) =
     last (sizes (main_loop rt gw TARGET beforeBytes original q w))"
proof -
  define t where "t = (case TARGET of Some t \<Rightarrow> t | None \<Rightarrow> int beforeBytes)"
  have m: "main_loop rt gw TARGET beforeBytes original q w = budget_loop rt gw t original 0 q w []"
    by (simp add: main_loop_def t_def)
  from budget_loop_trace[of rt gw t original 0 q w "[]"] show ?thesis
    unfolding m by auto
qed

theorem budget_loop_passes_witness:
  "sizes (main_loop growing_codec False (Some 10) 42
      (js ''<img src=\"data:image/png;base64,iVBORw0K\">'') 70 1600) = [51] \<and>
   pass (main_loop growing_codec False (Some 10) 42
      (js ''<img src=\"data:image/png;base64,iVBORw0K\">'') 70 1600) = 1 \<and>
   pass (main_loop growing_codec False (Some 10) 42
      (js ''<img src=\"data:image/png;base64,iVBORw0K\">'') 70 1600)
     \<le> 1 + quality_steps 70 + width_steps 1600"
proof -
  have "sizes (main_loop growing_codec False (Some 10) 42
      (js ''<img src=\"data:image/png;base64,iVBORw0K\">'') 70 1600) = [51]"
    by code_simp
  with budget_loop_passes[of growing_codec False "Some 10" 42
      "js ''<img src=\"data:image/png;base64,iVBORw0K\">''" 70 1600]
  show ?thesis by simp
qed

text \<open>
  C1 as stated fails: a document above its target with one PNG payload, and an encoder
  whose output is longer than the payload. The only pass makes one replacement, the
  result is 51 bytes against 42 before, and that result is what the loop returns.
\<close>

theorem budget_final_size_counterexample:
  "(10::int) < int (byteLength (js ''<img src=\"data:image/png;base64,iVBORw0K\">'')) \<and>
   snd (compressInlineOnce growing_codec False
          (js ''<img src=\"data:image/png;base64,iVBORw0K\">'') 70 1600) = 1 \<and>
   byteLength (js ''<img src=\"data:image/png;base64,iVBORw0K\">'') = 42 \<and>
   current (main_loop growing_codec False (Some 10) 42
      (js ''<img src=\"data:image/png;base64,iVBORw0K\">'') 70 1600) =
     js ''<img src=\"data:image/webp;base64,UklGRhIAAABXRUJQ\">'' \<and>
   \<not> byteLength (current (main_loop growing_codec False (Some 10) 42
      (js ''<img src=\"data:image/png;base64,iVBORw0K\">'') 70 1600))
     \<le> byteLength (js ''<img src=\"data:image/png;base64,iVBORw0K\">'')"
  by code_simp


text \<open>
  C4. The payload loop accepts the space, but not the line feed, the carriage return or
  the tab: the source compares the character with the two-character literals
  \<open>'\\n'\<close>, \<open>'\\r'\<close>, \<open>'\\t'\<close>. A payload wrapped with a line feed is cut at the line feed
  (index 36, not 41), and the replacement is followed by the rest of the old payload.
\<close>

theorem newline_ends_payload:
  "\<not> is_b64_char 0x0A \<and> \<not> is_b64_char 0x0D \<and> \<not> is_b64_char 0x09 \<and>
   is_b64_char (ch CHR '' '') \<and>
   (js ''<img src=\"data:image/png;base64,iVBO'' @ [0x0A] @ js ''Rw0K\">'') ! 36 = 0x0A \<and>
   consume (js ''<img src=\"data:image/png;base64,iVBO'' @ [0x0A] @ js ''Rw0K\">'') 32 = 36 \<and>
   consume (js ''<img src=\"data:image/png;base64,iVBO Rw0K\">'') 32 = 41 \<and>
   compressInlineOnce growing_codec False
     (js ''<img src=\"data:image/png;base64,iVBO'' @ [0x0A] @ js ''Rw0K\">'') 70 1600 =
   (js ''<img src=\"data:image/webp;base64,UklGRhIAAABXRUJQ'' @ [0x0A] @ js ''Rw0K\">'', 1)"
  by code_simp

text \<open>
  C5. The scanner finds markers and \<open>base64\<close> in \<open>lower = html.toLowerCase()\<close> and uses the
  positions in \<open>html\<close>. The document below starts with seven letters U+0130, each of which
  is two code units in \<open>lower\<close>, so every position found in \<open>lower\<close> lies seven to the
  right. The document holds one marker, at 7; a \<open>;\<close> follows it, at 23, and no \<open>base64\<close>
  follows that \<open>;\<close>. The pass does not leave the rest unchanged: it takes the \<open>base64\<close>
  in front of the \<open>;\<close> for one behind it, re-encodes \<open>AAAA\<close> and puts the result in the
  place of everything from index 14 on. Without the seven letters the same text is
  returned as it is.
\<close>

theorem missing_base64_replaced:
  "indexOf ([0x130, 0x130, 0x130, 0x130, 0x130, 0x130, 0x130] @ js ''data:imagebase64;,AAAA'')
     (js ''data:image'') 0 = Some 7 \<and>
   indexOf ([0x130, 0x130, 0x130, 0x130, 0x130, 0x130, 0x130] @ js ''data:imagebase64;,AAAA'')
     (js '';'') 7 = Some 23 \<and>
   indexOf (toLowerCase_basic
      (drop 24 ([0x130, 0x130, 0x130, 0x130, 0x130, 0x130, 0x130] @ js ''data:imagebase64;,AAAA'')))
     (js ''base64'') 0 = None \<and>
   indexOf (toLowerCase_basic
      ([0x130, 0x130, 0x130, 0x130, 0x130, 0x130, 0x130] @ js ''data:imagebase64;,AAAA''))
     (js ''base64'') 24 = Some 24 \<and>
   compressInlineOnce growing_codec False
     ([0x130, 0x130, 0x130, 0x130, 0x130, 0x130, 0x130] @ js ''data:imagebase64;,AAAA'') 70 1600 =
     ([0x130, 0x130, 0x130, 0x130, 0x130, 0x130, 0x130] @
        js ''data:imdata:image/webp;base64,UklGRhIAAABXRUJQ'', 1) \<and>
   compressInlineOnce growing_codec False (js ''data:imagebase64;,AAAA'') 70 1600 =
     (js ''data:imagebase64;,AAAA'', 0)"
  by code_simp

text \<open>
  C8. Of the same defect: after one letter U+0130 the positions found in \<open>lower\<close> lie one
  to the right, the type the scanner reads is \<open>mage/svg+xml\<close> or \<open>mage/gif\<close>, and the
  payload goes to the WebP encoder. The SVG payload is not reproduced, and the GIF
  payload, without \<open>--gif-webp\<close>, comes back as \<open>image/webp\<close>; the character before the
  marker is doubled. With the letter \<open>I\<close> in the place of U+0130 the SVG is passed through.
  The last document has no such letter: the text \<open>data:image\<close> stands in prose before the
  SVG, the delimiters found for it are those of the SVG, and the SVG payload is
  re-encoded as WebP.
\<close>

theorem svg_and_gif_reencoded:
  "compressInlineOnce growing_codec False
     (js ''<b>'' @ [0x130] @ js ''</b><i>data:image/svg+xml;base64,PHN2Zz4=</i>'') 70 1600 =
     (js ''<b>'' @ [0x130] @ js ''</b><i>ddata:image/webp;base64,UklGRhIAAABXRUJQ</i>'', 1) \<and>
   trace (scan growing_codec False 70 1600
     (js ''<b>'' @ [0x130] @ js ''</b><i>data:image/svg+xml;base64,PHN2Zz4=</i>'') init_state) =
     [Encoded (js ''PHN2Zz4='') (js ''UklGRhIAAABXRUJQ'')] \<and>
   compressInlineOnce growing_codec False
     (js ''<b>'' @ [0x130] @ js ''</b><i>data:image/gif;base64,R0lGODlh</i>'') 70 1600 =
     (js ''<b>'' @ [0x130] @ js ''</b><i>ddata:image/webp;base64,UklGRhIAAABXRUJQ</i>'', 1) \<and>
   compressInlineOnce growing_codec False
     (js ''<b>I</b><i>data:image/svg+xml;base64,PHN2Zz4=</i>'') 70 1600 =
     (js ''<b>I</b><i>data:image/svg+xml;base64,PHN2Zz4=</i>'', 0) \<and>
   trace (scan growing_codec False 70 1600
     (js ''<b>I</b><i>data:image/svg+xml;base64,PHN2Zz4=</i>'') init_state) = [Passthrough] \<and>
   compressInlineOnce growing_codec False
     (js ''see data:image here: <img src=\"data:image/svg+xml;base64,PHN2Zz4=\">'') 70 1600 =
     (js ''see data:image/webp;base64,UklGRhIAAABXRUJQ\">'', 1)"
  by code_simp

text \<open>
  C9, as the code has it. Take any execution of the loop body in a pass, in state \<open>st\<close>,
  that locates a payload, and let \<open>piece\<close>, \<open>n\<close> and \<open>ev\<close> be what
  \<^const>\<open>replacement_by_trace\<close> tells from the trace so far: an SVG is passed through;
  content for which an encoder call of this pass has returned a result is replaced by
  that result without a call; for other content the encoder is called once, and the
  payload is replaced by the result, or left as it is when the encoder throws. Then the
  loop body does exactly that: it pushes the text before the marker and \<open>piece\<close>, counts
  \<open>n\<close> replacements and goes on behind the payload; \<open>ev\<close> is the next event of the trace of
  the pass; and \<open>piece\<close> stands in the text the pass returns, behind what was pushed before.
  For every content hash \<open>h\<close> the trace of the pass holds at most one encoder call that
  returned a result that is not empty, and every occurrence answered from the cache
  carries the result of that call.
\<close>

theorem one_encoding_per_hash:
  assumes "st \<in> set (scan_states rt gw q w html init_state)"
      and "indexOf (toLowerCase rt html) (js ''data:image'') (ix st) = Some start"
      and "indexOf html (js '';'') (start + 5) = Some semi"
      and "indexOf (toLowerCase rt html) (js ''base64'') (semi + 1) = Some base64Idx"
      and "indexOf html (js '','') base64Idx = Some comma"
      and "replacement_by_trace rt gw q w (trace st) (slice html (start + 5) semi)
             (strip_ws (slice html (comma + 1) (consume html (comma + 1))))
             (slice html start (consume html (comma + 1))) = (piece, n, ev)"
  shows "(\<exists>st'. scan_body rt gw q w html st = Continue st' \<and>
            out st' = out st @ [slice html (ix st) start, piece] \<and>
            replaced st' = replaced st + n \<and> trace st' = trace st @ [ev] \<and>
            ix st' = consume html (comma + 1)) \<and>
         (\<exists>later. trace (scan rt gw q w html init_state) = trace st @ ev # later) \<and>
         (\<exists>rest. fst (compressInlineOnce rt gw html q w) =
                   concat (out st) @ slice html (ix st) start @ piece @ rest) \<and>
         length (encodings h (trace (scan rt gw q w html init_state))) \<le> 1 \<and>
         (\<forall>r. first_result h (trace st) = Some r \<or>
               Reused h r \<in> set (trace (scan rt gw q w html init_state)) \<longrightarrow>
               r \<noteq> [] \<and> encodings h (trace (scan rt gw q w html init_state)) = [Encoded h r])"
proof -
  let ?k = "consume html (comma + 1)"
  let ?final = "scan rt gw q w html init_state"
  from scan_states_agrees[OF assms(1) init_agrees]
  have ag: "cache_agrees (cache st) (trace st)" .
  from scan_agrees[OF init_agrees, of rt gw q w html]
  have agf: "cache_agrees (cache ?final) (trace ?final)" .
  from scan_states_scan[OF assms(1)] have sc: "scan rt gw q w html st = ?final" .
  obtain piece' c' n' ev' where r:
    "recompress rt gw q w (cache st) (slice html (start + 5) semi)
       (strip_ws (slice html (comma + 1) ?k)) (slice html start ?k) = (piece', c', n', ev')"
    by (metis prod_cases4)
  from recompress_by_trace[OF ag r] assms(6) have eq: "piece' = piece" "n' = n" "ev' = ev"
    by simp_all
  let ?st' = "st\<lparr>cache := c', out := out st @ [slice html (ix st) start, piece],
                 replaced := replaced st + n, trace := trace st @ [ev], ix := ?k\<rparr>"
  from scan_body_payload[OF assms(2-5) r] eq
  have body: "scan_body rt gw q w html st = Continue ?st'" by simp
  then have 1: "\<exists>st'. scan_body rt gw q w html st = Continue st' \<and>
            out st' = out st @ [slice html (ix st) start, piece] \<and>
            replaced st' = replaced st + n \<and> trace st' = trace st @ [ev] \<and> ix st' = ?k"
    by (intro exI[of _ ?st']) simp
  from scan_trace[of rt gw q w html ?st'] scan_Continue[OF body] sc
  have 2: "\<exists>later. trace ?final = trace st @ ev # later" by auto
  from scan_output_prefix[OF body] sc compressInlineOnce_output[of rt gw html q w]
  have 3: "\<exists>rest. fst (compressInlineOnce rt gw html q w) =
                   concat (out st) @ slice html (ix st) start @ piece @ rest"
    by auto
  from agrees_one_encoding(1)[OF agf] have 4: "length (encodings h (trace ?final)) \<le> 1" .
  have 5: "r \<noteq> [] \<and> encodings h (trace ?final) = [Encoded h r]"
    if "first_result h (trace st) = Some r \<or> Reused h r \<in> set (trace ?final)" for r
  proof (cases "Reused h r \<in> set (trace ?final)")
    case True
    from agrees_one_encoding(2)[OF agf True] show ?thesis .
  next
    case False
    with that have f: "first_result h (trace st) = Some r" by simp
    from cached_first_result[OF ag, of h] f have c: "cached (cache st) h = Some r" by simp
    from ag c have e: "encodings h (trace st) = [Encoded h r]"
      by (simp add: cache_agrees_def split: option.splits)
    from 2 obtain later where "trace ?final = trace st @ ev # later" by auto
    then have "encodings h (trace ?final) = [Encoded h r] @ encodings h (ev # later)"
      using e by (simp add: encodings_def)
    with 4 have "encodings h (trace ?final) = [Encoded h r]"
      by (cases "encodings h (ev # later)") simp_all
    with cached_Some_nonempty[OF c] show ?thesis by simp
  qed
  from 1 2 3 4 5 show ?thesis by blast
qed

theorem one_encoding_per_hash_witness:
  "scan_states growing_codec False 70 1600
      (js ''<img src=\"data:image/png;base64,iVBO Rw0K\"><b style=\"x:url(data:image/png;base64,iVBORw0K)\">'')
      init_state ! 1
     \<in> set (scan_states growing_codec False 70 1600
      (js ''<img src=\"data:image/png;base64,iVBO Rw0K\"><b style=\"x:url(data:image/png;base64,iVBORw0K)\">'')
      init_state) \<and>
   trace (scan_states growing_codec False 70 1600
      (js ''<img src=\"data:image/png;base64,iVBO Rw0K\"><b style=\"x:url(data:image/png;base64,iVBORw0K)\">'')
      init_state ! 1) = [Encoded (js ''iVBORw0K'') (js ''UklGRhIAAABXRUJQ'')] \<and>
   trace (scan growing_codec False 70 1600
      (js ''<img src=\"data:image/png;base64,iVBO Rw0K\"><b style=\"x:url(data:image/png;base64,iVBORw0K)\">'')
      init_state) =
     [Encoded (js ''iVBORw0K'') (js ''UklGRhIAAABXRUJQ''),
      Reused (js ''iVBORw0K'') (js ''UklGRhIAAABXRUJQ'')] \<and>
   fst (compressInlineOnce growing_codec False
      (js ''<img src=\"data:image/png;base64,iVBO Rw0K\"><b style=\"x:url(data:image/png;base64,iVBORw0K)\">'')
      70 1600) =
     js ''<img src=\"data:image/webp;base64,UklGRhIAAABXRUJQ\"><b style=\"x:url(data:image/webp;base64,UklGRhIAAABXRUJQ)\">'' \<and>
   (\<exists>later. trace (scan growing_codec False 70 1600
      (js ''<img src=\"data:image/png;base64,iVBO Rw0K\"><b style=\"x:url(data:image/png;base64,iVBORw0K)\">'')
      init_state) =
     [Encoded (js ''iVBORw0K'') (js ''UklGRhIAAABXRUJQ'')] @
     Reused (js ''iVBORw0K'') (js ''UklGRhIAAABXRUJQ'') # later)"
proof -
  let ?doc = "js ''<img src=\"data:image/png;base64,iVBO Rw0K\"><b style=\"x:url(data:image/png;base64,iVBORw0K)\">''"
  let ?st = "scan_states growing_codec False 70 1600 ?doc init_state ! 1"
  have "length (scan_states growing_codec False 70 1600 ?doc init_state) = 3"
    by code_simp
  then have m: "?st \<in> set (scan_states growing_codec False 70 1600 ?doc init_state)"
    by (intro nth_mem) simp
  have t: "trace ?st = [Encoded (js ''iVBORw0K'') (js ''UklGRhIAAABXRUJQ'')]"
    by code_simp
  have f: "trace (scan growing_codec False 70 1600 ?doc init_state) =
     [Encoded (js ''iVBORw0K'') (js ''UklGRhIAAABXRUJQ''),
      Reused (js ''iVBORw0K'') (js ''UklGRhIAAABXRUJQ'')]"
    by code_simp
  have o: "fst (compressInlineOnce growing_codec False ?doc 70 1600) =
     js ''<img src=\"data:image/webp;base64,UklGRhIAAABXRUJQ\"><b style=\"x:url(data:image/webp;base64,UklGRhIAAABXRUJQ)\">''"
    by code_simp
  have h1: "indexOf (toLowerCase growing_codec ?doc) (js ''data:image'') (ix ?st) = Some 59"
    by code_simp
  have h2: "indexOf ?doc (js '';'') (59 + 5) = Some 73" by code_simp
  have h3: "indexOf (toLowerCase growing_codec ?doc) (js ''base64'') (73 + 1) = Some 74"
    by code_simp
  have h4: "indexOf ?doc (js '','') 74 = Some 80" by code_simp
  have h5: "replacement_by_trace growing_codec False 70 1600 (trace ?st) (slice ?doc (59 + 5) 73)
             (strip_ws (slice ?doc (80 + 1) (consume ?doc (80 + 1))))
             (slice ?doc 59 (consume ?doc (80 + 1))) =
            (js ''data:image/webp;base64,UklGRhIAAABXRUJQ'', 1,
             Reused (js ''iVBORw0K'') (js ''UklGRhIAAABXRUJQ''))"
    by code_simp
  from one_encoding_per_hash[OF m h1 h2 h3 h4 h5]
  have "\<exists>later. trace (scan growing_codec False 70 1600 ?doc init_state) =
      trace ?st @ Reused (js ''iVBORw0K'') (js ''UklGRhIAAABXRUJQ'') # later"
    by blast
  with t have "\<exists>later. trace (scan growing_codec False 70 1600 ?doc init_state) =
      [Encoded (js ''iVBORw0K'') (js ''UklGRhIAAABXRUJQ'')] @
      Reused (js ''iVBORw0K'') (js ''UklGRhIAAABXRUJQ'') # later"
    by (simp only:)
  with m t f o show ?thesis by blast
qed

text \<open>
  C9 as stated fails when the encoder throws on the content: two payloads with the same
  decoded bytes (the first written with a space) cost two encoder calls, nothing is
  cached, and both are left as their original, different, text. It fails for two equal
  SVG payloads as well, with any encoder: no encoder is called at all.
\<close>

theorem failed_encodings_counterexample:
  "trace (scan failing_codec False 70 1600
      (js ''<img src=\"data:image/png;base64,iVBO Rw0K\"><b style=\"x:url(data:image/png;base64,iVBORw0K)\">'')
      init_state) = [Failed (js ''iVBORw0K''), Failed (js ''iVBORw0K'')] \<and>
   compressInlineOnce failing_codec False
      (js ''<img src=\"data:image/png;base64,iVBO Rw0K\"><b style=\"x:url(data:image/png;base64,iVBORw0K)\">'')
      70 1600 =
     (js ''<img src=\"data:image/png;base64,iVBO Rw0K\"><b style=\"x:url(data:image/png;base64,iVBORw0K)\">'', 0) \<and>
   trace (scan growing_codec False 70 1600
      (js ''<img src=\"data:image/svg+xml;base64,PHN2Zz4=\"><i style=\"x:url(data:image/svg+xml;base64,PHN2 Zz4=)\">'')
      init_state) = [Passthrough, Passthrough]"
  by code_simp

section \<open>Claims about the naming tool\<close>







text \<open>
  C2. A first run with \<open>--apply\<close> names \<open>snap.zip.html\<close> after its URL and the clock. On the
  canonical name it produced, \<open>DATETIME_IN_NAME_RE\<close> does not match, because the pattern
  allows one extension segment after the \<open>Z\<close> and \<open>.zip.html\<close> has two; so a second run
  takes the clock again and renames the file. With the extension \<open>.html\<close> the pattern
  matches and the second run renames nothing.
\<close>

theorem compound_extension_renamed_again:
  "processDir example_extract example_parse (\<lambda>f. js ''2026-01-02T03:04:05.678Z'') apply_flags
     (snapshots_with [(js ''snap.zip.html'', ''<html>'')]) snapshots [js ''snap.zip.html''] =
     (snapshots_with [(js ''https_example.com_a-2026-01-02T03_04_05_678Z.zip.html'', ''<html>'')],
      [Report (js ''snap.zip.html'')
         (js ''https_example.com_a-2026-01-02T03_04_05_678Z.zip.html'') True]) \<and>
   DATETIME_IN_NAME_RE (js ''https_example.com_a-2026-01-02T03_04_05_678Z.zip.html'') = None \<and>
   processDir example_extract example_parse (\<lambda>f. js ''2026-02-03T04:05:06.789Z'') apply_flags
     (snapshots_with [(js ''https_example.com_a-2026-01-02T03_04_05_678Z.zip.html'', ''<html>'')])
     snapshots [js ''https_example.com_a-2026-01-02T03_04_05_678Z.zip.html''] =
     (snapshots_with [(js ''https_example.com_a-2026-02-03T04_05_06_789Z.zip.html'', ''<html>'')],
      [Report (js ''https_example.com_a-2026-01-02T03_04_05_678Z.zip.html'')
         (js ''https_example.com_a-2026-02-03T04_05_06_789Z.zip.html'') True]) \<and>
   DATETIME_IN_NAME_RE (js ''https_example.com_a-2026-01-02T03_04_05_678Z.html'') =
     Some (js ''2026-01-02T03_04_05_678Z'') \<and>
   processDir example_extract example_parse (\<lambda>f. js ''2026-02-03T04:05:06.789Z'') apply_flags
     (snapshots_with [(js ''https_example.com_a-2026-01-02T03_04_05_678Z.html'', ''<html>'')])
     snapshots [js ''https_example.com_a-2026-01-02T03_04_05_678Z.html''] =
     (snapshots_with [(js ''https_example.com_a-2026-01-02T03_04_05_678Z.html'', ''<html>'')], [])"
  by code_simp

text \<open>
  C3. \<open>flattenUrl\<close> puts two underscores between scheme and host, and \<open>sanitizeFilename\<close>
  collapses them: the composed and sanitized name has one. No name that
  \<open>sanitizeFilename\<close> returns has two underscores next to each other.
\<close>

theorem scheme_delimiter_collapsed:
  "flattenUrl (example_parse (js ''https://example.com/a'')) = js ''https__example.com_a'' \<and>
   sanitizeFilename (js ''https__example.com_a-2025-09-07T14_50_55_735Z.html'') =
     js ''https_example.com_a-2025-09-07T14_50_55_735Z.html'' \<and>
   maybeFixFile example_extract example_parse (js ''2026-01-02T03:04:05.678Z'') apply_flags
     (snapshots_with [(js ''snap-2025-09-07T14_50_55_735Z.html'', ''<html>'')])
     (snapshots @ [js ''snap-2025-09-07T14_50_55_735Z.html'']) =
     Inr (snapshots_with [(js ''https_example.com_a-2025-09-07T14_50_55_735Z.html'', ''<html>'')],
          [Report (js ''snap-2025-09-07T14_50_55_735Z.html'')
             (js ''https_example.com_a-2025-09-07T14_50_55_735Z.html'') True]) \<and>
   \<not> has_double_underscore (sanitizeFilename name)"
proof -
  have "flattenUrl (example_parse (js ''https://example.com/a'')) = js ''https__example.com_a''"
    by code_simp
  moreover have "sanitizeFilename (js ''https__example.com_a-2025-09-07T14_50_55_735Z.html'') =
     js ''https_example.com_a-2025-09-07T14_50_55_735Z.html''"
    by code_simp
  moreover have "maybeFixFile example_extract example_parse (js ''2026-01-02T03:04:05.678Z'') apply_flags
     (snapshots_with [(js ''snap-2025-09-07T14_50_55_735Z.html'', ''<html>'')])
     (snapshots @ [js ''snap-2025-09-07T14_50_55_735Z.html'']) =
     Inr (snapshots_with [(js ''https_example.com_a-2025-09-07T14_50_55_735Z.html'', ''<html>'')],
          [Report (js ''snap-2025-09-07T14_50_55_735Z.html'')
             (js ''https_example.com_a-2025-09-07T14_50_55_735Z.html'') True])"
    by code_simp
  ultimately show ?thesis using sanitize_no_double[of name] by blast
qed

end
